theory Spec2Isabelle
  imports Main "HOL-Library.Product_Lexorder" "HOL-Library.Multiset"
begin

section \<open>Queue simulation of \<^verbatim>\<open>app.py\<close>\<close>

text \<open>
  \<^verbatim>\<open>run_simulation\<close> drives two generator processes (\<^verbatim>\<open>customer_generator\<close> and one
  \<^verbatim>\<open>service_customer\<close> per customer) on a SimPy environment with one
  \<^verbatim>\<open>simpy.Resource\<close>. The model below is the event loop of \<^verbatim>\<open>simpy.Environment\<close>
  (a heap of entries \<open>(time, priority, eid, event)\<close>, popped smallest first) with the
  two generators cut at their \<^verbatim>\<open>yield\<close> points: each event constructor carries the
  local variables of the process that waits for it.
\<close>

subsection \<open>Exceptions and the random module\<close>

text \<open>
  The exceptions of a run: \<^verbatim>\<open>ValueError\<close> and \<^verbatim>\<open>RuntimeError\<close> come from
  \<^verbatim>\<open>random\<close> and SimPy, the other two from a Streamlit \<^verbatim>\<open>number_input\<close> whose
  default lies outside its bounds.
\<close>

datatype error =
    ValueError
  | RuntimeError
  | StreamlitValueBelowMinError
  | StreamlitValueAboveMaxError

text \<open>
  Python's \<^verbatim>\<open>random\<close> module is global state of type \<open>'g\<close>. \<open>seed\<close> is
  \<^verbatim>\<open>random.seed\<close> (it replaces the state), \<open>draw\<close> is what \<^verbatim>\<open>random.randint(a, b)\<close>
  computes for \<open>a \<le> b\<close>: a value and the next state. The Mersenne Twister itself is
  not modelled; the engine is parametric in it.
\<close>

record 'g random_module =
  seed :: "int \<Rightarrow> 'g"
  draw :: "'g \<Rightarrow> int \<Rightarrow> int \<Rightarrow> int \<times> 'g"

text \<open>\<^verbatim>\<open>random.randint(a, b)\<close> raises \<^verbatim>\<open>ValueError\<close> on an empty range.\<close>

definition randint :: "'g random_module \<Rightarrow> 'g \<Rightarrow> int \<Rightarrow> int \<Rightarrow> error + int \<times> 'g" where
  "randint R g a b = (if b < a then Inl ValueError else Inr (draw R g a b))"

text \<open>The documented contract of \<^verbatim>\<open>randint\<close>: the value lies in \<open>[a, b]\<close>.\<close>

definition randint_in_range :: "'g random_module \<Rightarrow> bool" where
  "randint_in_range R \<longleftrightarrow>
     (\<forall>g a b. a \<le> b \<longrightarrow> a \<le> fst (draw R g a b) \<and> fst (draw R g a b) \<le> b)"

text \<open>
  A small linear congruential generator, used to run the engine on concrete inputs.
\<close>

definition sample_random :: "int random_module" where
  "sample_random =
     \<lparr>seed = (\<lambda>n. \<bar>n\<bar>),
      draw = (\<lambda>g a b. (a + g mod (b - a + 1), (g * 1103515245 + 12345) mod 2147483648))\<rparr>"

subsection \<open>Parameters and Customer Records\<close>

record params =
  num_cashiers :: int
  sim_time :: int
  min_interarrival :: int
  max_interarrival :: int
  min_service :: int
  max_service :: int
  random_seed :: int

record customer_record =
  customer_id :: string
  arrival_time :: int
  start_service :: int
  finish_time :: int
  queue_time :: int
  service_duration :: int
  system_time :: int

text \<open>\<^verbatim>\<open>f"Customer {i}"\<close>: the decimal numeral of \<open>i\<close> after the fixed prefix.\<close>

fun decimal :: "nat \<Rightarrow> string" where
  "decimal n =
     (if n < 10 then [char_of (48 + n)]
      else decimal (n div 10) @ [char_of (48 + n mod 10)])"

declare decimal.simps [simp del]

definition customer_label :: "nat \<Rightarrow> string" where
  "customer_label i = ''Customer '' @ decimal i"

subsection \<open>The SimPy environment\<close>

text \<open>
  The events of a run. \<open>Request i a\<close> is the request of customer \<open>i\<close>, who arrived at
  \<open>a\<close>; \<open>Service_timeout i a st d\<close> is the timeout that customer \<open>i\<close> (arrived at \<open>a\<close>,
  served from \<open>st\<close>) waits on for its service of duration \<open>d\<close>. \<open>Process_end\<close> is the
  event of a process whose generator returned (nobody waits for it), and
  \<open>Process_failed e\<close> that of a process whose generator raised \<open>e\<close>.
\<close>

datatype event =
    Initialize_generator
  | Until
  | Generator_timeout
  | Initialize_customer nat
  | Request nat int
  | Service_timeout nat int int int
  | Release nat
  | Process_end
  | Process_failed error

type_synonym entry = "int \<times> nat \<times> nat \<times> event"

text \<open>The two priorities of \<^verbatim>\<open>simpy.core\<close>.\<close>

definition URGENT :: nat where "URGENT = 0"

definition NORMAL :: nat where "NORMAL = 1"

text \<open>
  The state of a run: the environment (\<open>now\<close>, the counter \<open>eid\<close>, the heap
  \<open>queue\<close>), the resource (\<open>users\<close>, \<open>put_queue\<close>), the random state, the
  generator's \<open>i\<close> and the list \<open>records\<close>. \<open>arrivals\<close> and \<open>starts\<close> are
  history only (nothing reads them): \<open>arrivals\<close> logs, at
  \<^verbatim>\<open>arrival_time = env.now\<close>, the customer's index, the time, and how many
  customers hold a slot and how many wait at that moment; \<open>starts\<close> logs, at
  \<^verbatim>\<open>start_service_time = env.now\<close>, the index, the arrival time and the time.
\<close>

record 'g env =
  now :: int
  eid :: nat
  queue :: "entry list"
  users :: "nat list"
  put_queue :: "(nat \<times> int) list"
  rng :: 'g
  gen_i :: nat
  records :: "customer_record list"
  arrivals :: "(nat \<times> int \<times> nat \<times> nat) list"
  starts :: "(nat \<times> int \<times> int) list"

definition key :: "entry \<Rightarrow> int \<times> nat \<times> nat" where
  "key x = (case x of (t, p, e, ev) \<Rightarrow> (t, p, e))"

text \<open>\<^verbatim>\<open>Environment.schedule\<close>: push \<open>(now + delay, priority, next eid, event)\<close>.\<close>

definition schedule :: "event \<Rightarrow> nat \<Rightarrow> int \<Rightarrow> 'g env \<Rightarrow> 'g env" where
  "schedule ev prio delay s =
     s\<lparr>queue := queue s @ [(now s + delay, prio, eid s, ev)], eid := Suc (eid s)\<rparr>"

text \<open>\<^verbatim>\<open>env.timeout(delay)\<close> raises \<^verbatim>\<open>ValueError\<close> on a negative delay.\<close>

definition timeout :: "event \<Rightarrow> int \<Rightarrow> 'g env \<Rightarrow> error + 'g env" where
  "timeout ev delay s =
     (if delay < 0 then Inl ValueError else Inr (schedule ev NORMAL delay s))"

text \<open>A generator that raises fails its process: the process event is scheduled.\<close>

definition process_failed :: "error \<Rightarrow> 'g env \<Rightarrow> 'g env" where
  "process_failed e s = schedule (Process_failed e) NORMAL 0 s"

text \<open>
  \<^verbatim>\<open>Resource._trigger_put\<close> with \<^verbatim>\<open>_do_put\<close>: only the head of the put queue is
  tried (\<^verbatim>\<open>_do_put\<close> returns \<^verbatim>\<open>None\<close>, so the loop breaks after one request);
  it is granted when fewer than \<^verbatim>\<open>capacity\<close> requests hold a slot.
\<close>

definition trigger_put :: "params \<Rightarrow> 'g env \<Rightarrow> 'g env" where
  "trigger_put P s =
     (case put_queue s of
        [] \<Rightarrow> s
      | (i, a) # rest \<Rightarrow>
          if int (length (users s)) < num_cashiers P
          then schedule (Request i a) NORMAL 0 (s\<lparr>users := users s @ [i], put_queue := rest\<rparr>)
          else s)"

text \<open>
  \<^verbatim>\<open>Resource.release\<close>, called when the \<^verbatim>\<open>with\<close> block is left: the request leaves
  \<open>users\<close> at once and the release event is scheduled; its callback is
  \<^verbatim>\<open>_trigger_put\<close>.
\<close>

definition release :: "nat \<Rightarrow> 'g env \<Rightarrow> 'g env" where
  "release i s = schedule (Release i) NORMAL 0 (s\<lparr>users := remove1 i (users s)\<rparr>)"

subsection \<open>The two processes\<close>

text \<open>
  \<^verbatim>\<open>customer_generator\<close> from the top of its loop to the next \<^verbatim>\<open>yield\<close>.
\<close>

definition customer_generator :: "'g random_module \<Rightarrow> params \<Rightarrow> 'g env \<Rightarrow> 'g env" where
  "customer_generator R P s =
     (let s1 = s\<lparr>gen_i := gen_i s + 1\<rparr> in
      case randint R (rng s1) (min_interarrival P) (max_interarrival P) of
        Inl e \<Rightarrow> process_failed e s1
      | Inr (inter_arrival, g) \<Rightarrow>
          (case timeout Generator_timeout inter_arrival (s1\<lparr>rng := g\<rparr>) of
             Inl e \<Rightarrow> process_failed e (s1\<lparr>rng := g\<rparr>)
           | Inr s2 \<Rightarrow> s2))"

text \<open>
  \<^verbatim>\<open>service_customer\<close> up to \<^verbatim>\<open>yield request\<close>: the request joins the put queue and
  the queue is triggered.
\<close>

definition service_customer_arrive :: "params \<Rightarrow> nat \<Rightarrow> 'g env \<Rightarrow> 'g env" where
  "service_customer_arrive P i s =
     (let arrival = now s in
      trigger_put P
        (s\<lparr>put_queue := put_queue s @ [(i, arrival)],
           arrivals := arrivals s @ [(i, arrival, length (users s), length (put_queue s))]\<rparr>))"

text \<open>
  From \<^verbatim>\<open>yield request\<close> to \<^verbatim>\<open>yield env.timeout(service_duration)\<close>. An exception
  inside the \<^verbatim>\<open>with\<close> block releases the request before the process fails.
\<close>

definition service_customer_start ::
    "'g random_module \<Rightarrow> params \<Rightarrow> nat \<Rightarrow> int \<Rightarrow> 'g env \<Rightarrow> 'g env" where
  "service_customer_start R P i arrival s =
     (let start_service_time = now s;
          s1 = s\<lparr>starts := starts s @ [(i, arrival, start_service_time)]\<rparr> in
      case randint R (rng s1) (min_service P) (max_service P) of
        Inl e \<Rightarrow> process_failed e (release i s1)
      | Inr (duration, g) \<Rightarrow>
          (case timeout (Service_timeout i arrival start_service_time duration) duration
                  (s1\<lparr>rng := g\<rparr>) of
             Inl e \<Rightarrow> process_failed e (release i (s1\<lparr>rng := g\<rparr>))
           | Inr s2 \<Rightarrow> s2))"

text \<open>
  From the service timeout to the end of the generator: the record is appended, the
  \<^verbatim>\<open>with\<close> block releases the request, and the process ends.
\<close>

definition service_customer_finish :: "nat \<Rightarrow> int \<Rightarrow> int \<Rightarrow> int \<Rightarrow> 'g env \<Rightarrow> 'g env" where
  "service_customer_finish i arrival start_service_time duration s =
     (let finish = now s;
          r = \<lparr>customer_id = customer_label i,
               arrival_time = arrival,
               start_service = start_service_time,
               finish_time = finish,
               queue_time = start_service_time - arrival,
               service_duration = duration,
               system_time = finish - arrival\<rparr> in
      schedule Process_end NORMAL 0 (release i (s\<lparr>records := records s @ [r]\<rparr>)))"

subsection \<open>The event loop\<close>

text \<open>
  The callbacks of an event: the process that waits for it runs to its next
  \<^verbatim>\<open>yield\<close>. The callback of a release event is \<^verbatim>\<open>_trigger_put\<close>; the event of a
  finished process has none. (\<open>Until\<close> and a failed process event end the loop and
  are handled by \<open>step\<close>.)
\<close>

fun callbacks :: "'g random_module \<Rightarrow> params \<Rightarrow> event \<Rightarrow> 'g env \<Rightarrow> 'g env" where
  "callbacks R P Initialize_generator s = customer_generator R P (s\<lparr>gen_i := 0\<rparr>)"
| "callbacks R P Generator_timeout s =
     customer_generator R P (schedule (Initialize_customer (gen_i s)) URGENT 0 s)"
| "callbacks R P (Initialize_customer i) s = service_customer_arrive P i s"
| "callbacks R P (Request i a) s = service_customer_start R P i a s"
| "callbacks R P (Service_timeout i a st d) s = service_customer_finish i a st d s"
| "callbacks R P (Release i) s = trigger_put P s"
| "callbacks R P Process_end s = s"
| "callbacks R P Until s = s"
| "callbacks R P (Process_failed e) s = s"

datatype 'g step_result = Continue "'g env" | Stopped "'g env" | Raised error

definition event_of :: "entry \<Rightarrow> event" where
  "event_of x = snd (snd (snd x))"

text \<open>The heap without its smallest entry \<open>x\<close>, the clock set to the time of \<open>x\<close>.\<close>

definition popped :: "entry \<Rightarrow> 'g env \<Rightarrow> 'g env" where
  "popped x s = s\<lparr>now := fst x, queue := remove1 x (queue s)\<rparr>"

text \<open>
  \<^verbatim>\<open>Environment.step\<close>: pop the smallest entry, set the clock to its time and run the
  callbacks of its event. The \<open>Until\<close> event raises \<^verbatim>\<open>StopSimulation\<close>; a failed
  process event re-raises its exception; an empty heap is \<^verbatim>\<open>EmptySchedule\<close>, which
  \<^verbatim>\<open>run\<close> turns into a \<^verbatim>\<open>RuntimeError\<close> when \<open>until\<close> was given.
\<close>

definition step :: "'g random_module \<Rightarrow> params \<Rightarrow> 'g env \<Rightarrow> 'g step_result" where
  "step R P s =
     (if queue s = [] then Raised RuntimeError
      else
        let x = arg_min_list key (queue s);
            s1 = popped x s in
        case event_of x of
          Until \<Rightarrow> Stopped s1
        | Process_failed e \<Rightarrow> Raised e
        | ev \<Rightarrow> Continue (callbacks R P ev s1))"

text \<open>\<^verbatim>\<open>while True: self.step()\<close>; the loop need not end, so the result is optional.\<close>

partial_function (option) run_loop ::
    "'g random_module \<Rightarrow> params \<Rightarrow> 'g env \<Rightarrow> (error + 'g env) option" where
  "run_loop R P s =
     (case step R P s of
        Stopped s' \<Rightarrow> Some (Inr s')
      | Raised e \<Rightarrow> Some (Inl e)
      | Continue s' \<Rightarrow> run_loop R P s')"

declare run_loop.simps [code]

text \<open>
  The body of \<^verbatim>\<open>run_simulation\<close> up to the end of \<^verbatim>\<open>env.run\<close>, from any state \<open>g0\<close>
  of the random module. \<^verbatim>\<open>simpy.Resource\<close> rejects a capacity that is not positive,
  and \<^verbatim>\<open>env.run(until=sim_time)\<close> a horizon that is not after the current time.
\<close>

definition init_env :: "'g \<Rightarrow> 'g env" where
  "init_env g =
     \<lparr>now = 0, eid = 0, queue = [], users = [], put_queue = [], rng = g, gen_i = 0,
      records = [], arrivals = [], starts = []\<rparr>"

definition run_engine :: "'g random_module \<Rightarrow> params \<Rightarrow> 'g \<Rightarrow> (error + 'g env) option" where
  "run_engine R P g0 =
     (let g = seed R (random_seed P);
          env0 = init_env g in
      if num_cashiers P \<le> 0 then Some (Inl ValueError)
      else
        let s1 = schedule Initialize_generator URGENT 0 env0 in
        if sim_time P \<le> now s1 then Some (Inl ValueError)
        else run_loop R P (schedule Until URGENT (sim_time P - now s1) s1))"

text \<open>
  \<^verbatim>\<open>run_simulation\<close>: the records as the data frame, with the state the random module
  is left in.
\<close>

definition run_simulation ::
    "'g random_module \<Rightarrow> params \<Rightarrow> 'g \<Rightarrow> (error + customer_record list \<times> 'g) option" where
  "run_simulation R P g0 =
     (case run_engine R P g0 of
        None \<Rightarrow> None
      | Some (Inl e) \<Rightarrow> Some (Inl e)
      | Some (Inr s) \<Rightarrow> Some (Inr (records s, rng s)))"

subsection \<open>The caller\<close>

text \<open>
  \<^verbatim>\<open>st.sidebar.number_input(label, min_value, max_value, value)\<close>. The call raises when
  the default \<open>value\<close> is below \<open>min_value\<close> or above \<open>max_value\<close>. Otherwise it
  returns the state of the widget: the entry the user committed, if there is one,
  else the default. The front end does not commit an entry outside the bounds; the
  widget then still has its default.
\<close>

definition number_input :: "int \<Rightarrow> int \<Rightarrow> int \<Rightarrow> int option \<Rightarrow> error + int" where
  "number_input min_value max_value value entry =
     (if value < min_value then Inl StreamlitValueBelowMinError
      else if max_value < value then Inl StreamlitValueAboveMaxError
      else
        case entry of
          None \<Rightarrow> Inr value
        | Some v \<Rightarrow> if min_value \<le> v \<and> v \<le> max_value then Inr v else Inr value)"

text \<open>What the user entered in the eight widgets of the sidebar, and the button.\<close>

record inputs =
  sim_time_in :: "int option"
  min_interarrival_in :: "int option"
  max_interarrival_in :: "int option"
  min_service_in :: "int option"
  max_service_in :: "int option"
  num_cashiers_a_in :: "int option"
  num_cashiers_b_in :: "int option"
  random_seed_in :: "int option"
  run_button :: bool

text \<open>
  The sidebar of \<^verbatim>\<open>main\<close>, in the order of its calls: it raises, or returns the
  parameters of scenario A and of scenario B. The lower bound of
  \<^verbatim>\<open>max_interarrival\<close> is the value of \<^verbatim>\<open>min_interarrival\<close> and its default is 3 (and
  likewise \<^verbatim>\<open>max_service\<close>, with default 7).
\<close>

definition sidebar :: "inputs \<Rightarrow> error + params \<times> params" where
  "sidebar w =
     (case number_input 100 10000 1000 (sim_time_in w) of Inl e \<Rightarrow> Inl e | Inr sim_time' \<Rightarrow>
      case number_input 1 60 2 (min_interarrival_in w) of Inl e \<Rightarrow> Inl e | Inr min_interarrival' \<Rightarrow>
      case number_input min_interarrival' 60 3 (max_interarrival_in w) of Inl e \<Rightarrow> Inl e | Inr max_interarrival' \<Rightarrow>
      case number_input 1 60 4 (min_service_in w) of Inl e \<Rightarrow> Inl e | Inr min_service' \<Rightarrow>
      case number_input min_service' 60 7 (max_service_in w) of Inl e \<Rightarrow> Inl e | Inr max_service' \<Rightarrow>
      case number_input 1 10 1 (num_cashiers_a_in w) of Inl e \<Rightarrow> Inl e | Inr num_cashiers_a \<Rightarrow>
      case number_input 1 10 2 (num_cashiers_b_in w) of Inl e \<Rightarrow> Inl e | Inr num_cashiers_b \<Rightarrow>
      case number_input 0 999999 42 (random_seed_in w) of Inl e \<Rightarrow> Inl e | Inr random_seed' \<Rightarrow>
        Inr (\<lparr>num_cashiers = num_cashiers_a, sim_time = sim_time',
               min_interarrival = min_interarrival', max_interarrival = max_interarrival',
               min_service = min_service', max_service = max_service',
               random_seed = random_seed'\<rparr>,
             \<lparr>num_cashiers = num_cashiers_b, sim_time = sim_time',
               min_interarrival = min_interarrival', max_interarrival = max_interarrival',
               min_service = min_service', max_service = max_service',
               random_seed = random_seed'\<rparr>))"

text \<open>
  What the page shows below the sidebar. When both frames have rows the page shows
  summaries, means and charts computed from the two frames; they are kept here as
  the two frames.
\<close>

datatype page =
    No_run
  | Error_box string
  | Report "customer_record list" "customer_record list"

text \<open>
  \<^verbatim>\<open>main\<close>: the sidebar, then the button. When the button is pressed the two scenarios
  run one after the other on the same random module, and an empty frame is answered
  with the error box and \<^verbatim>\<open>return\<close>.
\<close>

definition main :: "'g random_module \<Rightarrow> inputs \<Rightarrow> 'g \<Rightarrow> (error + page \<times> 'g) option" where
  "main R w g0 =
     (case sidebar w of
        Inl e \<Rightarrow> Some (Inl e)
      | Inr (scenario_a, scenario_b) \<Rightarrow>
          if \<not> run_button w then Some (Inr (No_run, g0))
          else
            case run_simulation R scenario_a g0 of
              None \<Rightarrow> None
            | Some (Inl e) \<Rightarrow> Some (Inl e)
            | Some (Inr (df_scenario_a, g1)) \<Rightarrow>
                (case run_simulation R scenario_b g1 of
                   None \<Rightarrow> None
                 | Some (Inl e) \<Rightarrow> Some (Inl e)
                 | Some (Inr (df_scenario_b, g2)) \<Rightarrow>
                     if df_scenario_a = [] \<or> df_scenario_b = []
                     then Some (Inr (Error_box
                       ''Data simulasi kosong. Silakan coba lagi dengan parameter berbeda.'', g2))
                     else Some (Inr (Report df_scenario_a df_scenario_b, g2))))"

section \<open>Sample runs\<close>

text \<open>
  Inputs on which the engine is evaluated below, with the final states and records
  it computes on them.

  One cashier, a customer every 2 minutes, 4 minutes of service, horizon 11: the
  draws are fixed by the bounds, whatever the random source.
\<close>

definition example_params :: params where
  "example_params =
     \<lparr>num_cashiers = 1, sim_time = 11, min_interarrival = 2, max_interarrival = 2,
      min_service = 4, max_service = 4, random_seed = 42\<rparr>"

definition customer_1 :: customer_record where
  "customer_1 =
     \<lparr>customer_id = ''Customer 1'', arrival_time = 2, start_service = 2, finish_time = 6,
      queue_time = 0, service_duration = 4, system_time = 4\<rparr>"

definition customer_2 :: customer_record where
  "customer_2 =
     \<lparr>customer_id = ''Customer 2'', arrival_time = 4, start_service = 6, finish_time = 10,
      queue_time = 2, service_duration = 4, system_time = 6\<rparr>"

definition example_final :: "int env" where
  "example_final =
     \<lparr>now = 11, eid = 23,
      queue = [(12, 1, 20, Generator_timeout), (14, 1, 22, Service_timeout 3 6 10 4)],
      users = [3], put_queue = [(4, 8), (5, 10)], rng = 1314989459, gen_i = 6,
      records = [customer_1, customer_2],
      arrivals = [(1, 2, 0, 0), (2, 4, 1, 0), (3, 6, 0, 1), (4, 8, 1, 1), (5, 10, 0, 2)],
      starts = [(1, 2, 2), (2, 4, 6), (3, 6, 10)]\<rparr>"

text \<open>
  The same run after 20 steps, at time 10, when only the stop event is left before the
  horizon: customer 3 is in service, customers 4 and 5 wait.
\<close>

definition example_last :: "int env" where
  "example_last =
     \<lparr>now = 10, eid = 23,
      queue = [(11, 0, 1, Until), (12, 1, 20, Generator_timeout),
               (14, 1, 22, Service_timeout 3 6 10 4)],
      users = [3], put_queue = [(4, 8), (5, 10)], rng = 1314989459, gen_i = 6,
      records = [customer_1, customer_2],
      arrivals = [(1, 2, 0, 0), (2, 4, 1, 0), (3, 6, 0, 1), (4, 8, 1, 1), (5, 10, 0, 2)],
      starts = [(1, 2, 2), (2, 4, 6), (3, 6, 10)]\<rparr>"

text \<open>Services that take no time: \<open>min_service = max_service = 0\<close>.\<close>

definition instant_params :: params where
  "instant_params =
     \<lparr>num_cashiers = 1, sim_time = 5, min_interarrival = 2, max_interarrival = 2,
      min_service = 0, max_service = 0, random_seed = 42\<rparr>"

definition instant_customer_1 :: customer_record where
  "instant_customer_1 =
     \<lparr>customer_id = ''Customer 1'', arrival_time = 2, start_service = 2, finish_time = 2,
      queue_time = 0, service_duration = 0, system_time = 0\<rparr>"

definition instant_customer_2 :: customer_record where
  "instant_customer_2 =
     \<lparr>customer_id = ''Customer 2'', arrival_time = 4, start_service = 4, finish_time = 4,
      queue_time = 0, service_duration = 0, system_time = 0\<rparr>"

text \<open>
  Entries of the sidebar that the form accepts (horizon 100, gaps of 2 to 60 minutes,
  services of 4 to 60 minutes, seed 53; the other widgets at their defaults), and the
  parameters of the two scenarios they give. With the draws of \<open>sample_random\<close> the
  first customer arrives at 55 and is served for 50 minutes, so no service ends
  before the horizon.
\<close>

definition long_inputs :: inputs where
  "long_inputs =
     \<lparr>sim_time_in = Some 100, min_interarrival_in = None, max_interarrival_in = Some 60,
      min_service_in = None, max_service_in = Some 60, num_cashiers_a_in = None,
      num_cashiers_b_in = None, random_seed_in = Some 53, run_button = True\<rparr>"

definition long_scenario_a :: params where
  "long_scenario_a =
     \<lparr>num_cashiers = 1, sim_time = 100, min_interarrival = 2, max_interarrival = 60,
      min_service = 4, max_service = 60, random_seed = 53\<rparr>"

definition long_scenario_b :: params where
  "long_scenario_b =
     \<lparr>num_cashiers = 2, sim_time = 100, min_interarrival = 2, max_interarrival = 60,
      min_service = 4, max_service = 60, random_seed = 53\<rparr>"

text \<open>Gaps of 0 or 1 minute: \<open>min_interarrival = 0\<close>.\<close>

definition early_params :: params where
  "early_params =
     \<lparr>num_cashiers = 1, sim_time = 2, min_interarrival = 0, max_interarrival = 1,
      min_service = 1, max_service = 1, random_seed = 42\<rparr>"

definition early_final :: "int env" where
  "early_final =
     \<lparr>now = 2, eid = 13,
      queue = [(2, 1, 8, Generator_timeout), (2, 1, 12, Service_timeout 2 1 1 1)],
      users = [2], put_queue = [], rng = 908095735, gen_i = 3,
      records =
        [\<lparr>customer_id = ''Customer 1'', arrival_time = 0, start_service = 0,
          finish_time = 1, queue_time = 0, service_duration = 1, system_time = 1\<rparr>],
      arrivals = [(1, 0, 0, 0), (2, 1, 1, 0)],
      starts = [(1, 0, 0), (2, 1, 1)]\<rparr>"

text \<open>
  Two cashiers, gaps of 1 to 3 minutes and services of 2 to 9 minutes, with the draws
  of \<open>sample_random\<close>: customer 5 finishes before customer 4.
\<close>

definition overtaking_params :: params where
  "overtaking_params =
     \<lparr>num_cashiers = 2, sim_time = 16, min_interarrival = 1, max_interarrival = 3,
      min_service = 2, max_service = 9, random_seed = 42\<rparr>"

definition overtaking_records :: "customer_record list" where
  "overtaking_records =
     [\<lparr>customer_id = ''Customer 1'', arrival_time = 1, start_service = 1, finish_time = 3,
       queue_time = 0, service_duration = 2, system_time = 2\<rparr>,
      \<lparr>customer_id = ''Customer 2'', arrival_time = 2, start_service = 2, finish_time = 10,
       queue_time = 0, service_duration = 8, system_time = 8\<rparr>,
      \<lparr>customer_id = ''Customer 3'', arrival_time = 5, start_service = 5, finish_time = 11,
       queue_time = 0, service_duration = 6, system_time = 6\<rparr>,
      \<lparr>customer_id = ''Customer 5'', arrival_time = 10, start_service = 11, finish_time = 14,
       queue_time = 1, service_duration = 3, system_time = 4\<rparr>,
      \<lparr>customer_id = ''Customer 4'', arrival_time = 7, start_service = 10, finish_time = 15,
       queue_time = 3, service_duration = 5, system_time = 8\<rparr>]"

section \<open>Invariants of the event loop\<close>

text \<open>
  The predicates below hold of every state the loop of \<^verbatim>\<open>env.run\<close> goes through.
  \<open>smallest x s\<close> says what is known of the entry that \<open>step\<close> pops.
\<close>

definition smallest :: "entry \<Rightarrow> 'g env \<Rightarrow> bool" where
  "smallest x s \<longleftrightarrow> x \<in> set (queue s) \<and> (\<forall>y\<in>set (queue s). key x \<le> key y)"

text \<open>The clock is never ahead of an entry of the heap (and never negative).\<close>

definition time_ok :: "'g env \<Rightarrow> bool" where
  "time_ok s \<longleftrightarrow> 0 \<le> now s \<and> (\<forall>x\<in>set (queue s). now s \<le> fst x)"

text \<open>
  The priority each event is scheduled with: \<^verbatim>\<open>Initialize\<close> events and the stop event
  are urgent, timeouts, requests, releases and process events are normal.
\<close>

fun event_priority :: "event \<Rightarrow> nat" where
  "event_priority Initialize_generator = URGENT"
| "event_priority (Initialize_customer i) = URGENT"
| "event_priority Until = URGENT"
| "event_priority ev = NORMAL"

fun initialize_event :: "event \<Rightarrow> bool" where
  "initialize_event Initialize_generator = True"
| "initialize_event (Initialize_customer i) = True"
| "initialize_event ev = False"

definition prio_ok :: "'g env \<Rightarrow> bool" where
  "prio_ok s \<longleftrightarrow>
     (\<forall>(t, p, e, ev)\<in>set (queue s). p = event_priority ev)"

text \<open>
  While the loop runs the clock is before the horizon, the stop event is in the heap
  at \<open>sim_time\<close>, and an \<^verbatim>\<open>Initialize\<close> event in the heap is due at the current
  time.
\<close>

definition until_ok :: "params \<Rightarrow> 'g env \<Rightarrow> bool" where
  "until_ok P s \<longleftrightarrow>
     now s < sim_time P \<and> (\<exists>e. (sim_time P, URGENT, e, Until) \<in> set (queue s)) \<and>
     (\<forall>(t, p, e, ev)\<in>set (queue s). initialize_event ev \<longrightarrow> t = now s)"

text \<open>At most one \<^verbatim>\<open>Initialize\<close> event is in the heap at any time.\<close>

definition pending :: "'g env \<Rightarrow> entry list" where
  "pending s = filter (\<lambda>x. initialize_event (event_of x)) (queue s)"

definition pending_ok :: "'g env \<Rightarrow> bool" where
  "pending_ok s \<longleftrightarrow> length (pending s) \<le> 1"

definition base_ok :: "params \<Rightarrow> 'g env \<Rightarrow> bool" where
  "base_ok P s \<longleftrightarrow> time_ok s \<and> prio_ok s \<and> until_ok P s \<and> pending_ok s"

text \<open>The state in which \<^verbatim>\<open>env.run\<close> enters its loop.\<close>

definition start_env :: "'g random_module \<Rightarrow> params \<Rightarrow> 'g env" where
  "start_env R P =
     (let s1 = schedule Initialize_generator URGENT 0 (init_env (seed R (random_seed P)))
      in schedule Until URGENT (sim_time P - now s1) s1)"

text \<open>
  What the events carry: a granted request is due no earlier than its customer
  arrived, and a service timeout is due at start plus duration, for a start no
  earlier than the arrival and a duration that is not negative. A waiting customer
  arrived no later than now.
\<close>

fun entry_ok :: "int \<Rightarrow> event \<Rightarrow> bool" where
  "entry_ok t (Request i a) \<longleftrightarrow> a \<le> t"
| "entry_ok t (Service_timeout i a st d) \<longleftrightarrow> t = st + d \<and> a \<le> st \<and> 0 \<le> d"
| "entry_ok t ev \<longleftrightarrow> True"

definition payload_ok :: "'g env \<Rightarrow> bool" where
  "payload_ok s \<longleftrightarrow>
     (\<forall>(t, p, e, ev)\<in>set (queue s). entry_ok t ev) \<and>
     (\<forall>(i, a)\<in>set (put_queue s). a \<le> now s)"

text \<open>
  The records: each is consistent, none ends after the current time, and they are in
  the order of their finish times.
\<close>

definition record_ok :: "customer_record \<Rightarrow> bool" where
  "record_ok r \<longleftrightarrow>
     finish_time r = start_service r + service_duration r \<and>
     queue_time r = start_service r - arrival_time r \<and>
     system_time r = finish_time r - arrival_time r \<and>
     arrival_time r \<le> start_service r \<and> 0 \<le> service_duration r"

definition records_ok :: "'g env \<Rightarrow> bool" where
  "records_ok s \<longleftrightarrow>
     (\<forall>r\<in>set (records s). record_ok r \<and> finish_time r \<le> now s) \<and>
     sorted (map finish_time (records s))"

definition engine_ok :: "params \<Rightarrow> 'g env \<Rightarrow> bool" where
  "engine_ok P s \<longleftrightarrow> base_ok P s \<and> payload_ok s \<and> records_ok s"

text \<open>Every service duration, under way or recorded, lies within the bounds.\<close>

fun entry_bounds :: "params \<Rightarrow> event \<Rightarrow> bool" where
  "entry_bounds P (Service_timeout i a st d) \<longleftrightarrow> min_service P \<le> d \<and> d \<le> max_service P"
| "entry_bounds P ev \<longleftrightarrow> True"

definition bounds_ok :: "params \<Rightarrow> 'g env \<Rightarrow> bool" where
  "bounds_ok P s \<longleftrightarrow>
     (\<forall>(t, p, e, ev)\<in>set (queue s). entry_bounds P ev) \<and>
     (\<forall>r\<in>set (records s).
        min_service P \<le> service_duration r \<and> service_duration r \<le> max_service P)"

text \<open>
  The log \<open>arrivals\<close> is in generation order: the indices increase and the times do
  not decrease, every logged time is at most the clock, and a customer that is
  spawned but has not yet arrived has an index beyond every logged one.
\<close>

definition arrivals_ok :: "'g env \<Rightarrow> bool" where
  "arrivals_ok s \<longleftrightarrow>
     (\<forall>(i, t, u, w)\<in>set (arrivals s). t \<le> now s \<and> i < gen_i s) \<and>
     sorted_wrt (\<lambda>x y. fst x < fst y \<and> fst (snd x) \<le> fst (snd y)) (arrivals s) \<and>
     (\<forall>t p e i. (t, p, e, Initialize_customer i) \<in> set (queue s) \<longrightarrow>
        i < gen_i s \<and> (\<forall>(j, t', u, w)\<in>set (arrivals s). j < i)) \<and>
     ((\<exists>t p e. (t, p, e, Initialize_generator) \<in> set (queue s)) \<longrightarrow> arrivals s = [])"

text \<open>What the invariant says of the event that is popped.\<close>

fun arrival_event_ok :: "'g env \<Rightarrow> event \<Rightarrow> bool" where
  "arrival_event_ok s (Initialize_customer i) \<longleftrightarrow>
     i < gen_i s \<and> (\<forall>(j, t', u, w)\<in>set (arrivals s). j < i)"
| "arrival_event_ok s Initialize_generator \<longleftrightarrow> arrivals s = []"
| "arrival_event_ok s ev \<longleftrightarrow> True"

definition history_ok :: "params \<Rightarrow> 'g env \<Rightarrow> bool" where
  "history_ok P s \<longleftrightarrow> engine_ok P s \<and> arrivals_ok s"

text \<open>
  The generator's timeouts, the customers it spawned and the logged arrivals are all
  at \<open>min_interarrival\<close> or later.
\<close>

fun spawn_event :: "event \<Rightarrow> bool" where
  "spawn_event Generator_timeout = True"
| "spawn_event (Initialize_customer i) = True"
| "spawn_event ev = False"

definition gaps_ok :: "params \<Rightarrow> 'g env \<Rightarrow> bool" where
  "gaps_ok P s \<longleftrightarrow>
     (\<forall>(t, p, e, ev)\<in>set (queue s). spawn_event ev \<longrightarrow> min_interarrival P \<le> t) \<and>
     (\<forall>(i, t, u, w)\<in>set (arrivals s). min_interarrival P \<le> t \<and> 0 \<le> t)"

definition spawning_ok :: "params \<Rightarrow> 'g env \<Rightarrow> bool" where
  "spawning_ok P s \<longleftrightarrow> base_ok P s \<and> gaps_ok P s"

text \<open>The eids of the heap are distinct and below the counter.\<close>

definition eids_ok :: "'g env \<Rightarrow> bool" where
  "eids_ok s \<longleftrightarrow>
     distinct (map (\<lambda>x. fst (snd (snd x))) (queue s)) \<and>
     (\<forall>(t, p, e, ev)\<in>set (queue s). e < eid s)"

text \<open>
  The order of service. \<open>starts\<close> is in the order of the indices, and every
  customer that has started has a smaller index than every customer whose request is
  granted but not yet processed, which in turn has a smaller index than every
  customer in the put queue; the put queue is in the order of the indices, and
  granted requests are in the heap in the order of their indices.
\<close>

definition starts_ok :: "'g env \<Rightarrow> bool" where
  "starts_ok s \<longleftrightarrow>
     sorted_wrt (\<lambda>x y. fst x < fst y \<and> snd (snd x) \<le> snd (snd y)) (starts s) \<and>
     (\<forall>(i, a, st)\<in>set (starts s).
        st \<le> now s \<and> (\<exists>u w. (i, a, u, w) \<in> set (arrivals s)) \<and>
        (\<forall>t p e j b. (t, p, e, Request j b) \<in> set (queue s) \<longrightarrow> i < j) \<and>
        (\<forall>(j, b)\<in>set (put_queue s). i < j))"

definition requests_ok :: "'g env \<Rightarrow> bool" where
  "requests_ok s \<longleftrightarrow>
     (\<forall>t p e i a. (t, p, e, Request i a) \<in> set (queue s) \<longrightarrow>
        t = now s \<and> (\<exists>u w. (i, a, u, w) \<in> set (arrivals s)) \<and>
        (\<forall>(j, b)\<in>set (put_queue s). i < j) \<and>
        (\<forall>t' p' e' j b. (t', p', e', Request j b) \<in> set (queue s) \<longrightarrow> e < e' \<longrightarrow> i < j))"

definition waiting_ok :: "'g env \<Rightarrow> bool" where
  "waiting_ok s \<longleftrightarrow>
     sorted_wrt (<) (map fst (put_queue s)) \<and>
     (\<forall>(i, a)\<in>set (put_queue s). \<exists>u w. (i, a, u, w) \<in> set (arrivals s))"

definition fifo_ok :: "'g env \<Rightarrow> bool" where
  "fifo_ok s \<longleftrightarrow> starts_ok s \<and> requests_ok s \<and> waiting_ok s"

fun fifo_event_ok :: "'g env \<Rightarrow> event \<Rightarrow> bool" where
  "fifo_event_ok s (Request i a) \<longleftrightarrow>
     (\<forall>(j, b, st)\<in>set (starts s). j < i) \<and>
     (\<forall>t p e j b. (t, p, e, Request j b) \<in> set (queue s) \<longrightarrow> i < j) \<and>
     (\<forall>(j, b)\<in>set (put_queue s). i < j) \<and>
     (\<exists>u w. (i, a, u, w) \<in> set (arrivals s))"
| "fifo_event_ok s (Initialize_customer i) \<longleftrightarrow> (\<forall>(j, t, u, w)\<in>set (arrivals s). j < i)"
| "fifo_event_ok s ev \<longleftrightarrow> True"

text \<open>
  A customer who finds a slot free for it (fewer than \<open>num_cashiers\<close> customers hold a
  slot and nobody waits) has its request granted, and later processed, at its
  arrival time.
\<close>

definition slot_free :: "params \<Rightarrow> nat \<Rightarrow> nat \<Rightarrow> bool" where
  "slot_free P u w \<longleftrightarrow> int u < num_cashiers P \<and> w = 0"

definition immediate_ok :: "params \<Rightarrow> 'g env \<Rightarrow> bool" where
  "immediate_ok P s \<longleftrightarrow>
     (\<forall>(i, t, u, w)\<in>set (arrivals s). slot_free P u w \<longrightarrow>
        (\<forall>(j, a)\<in>set (put_queue s). j \<noteq> i) \<and>
        (\<forall>t' p e a. (t', p, e, Request i a) \<in> set (queue s) \<longrightarrow> t' = t) \<and>
        (\<forall>(j, a, st)\<in>set (starts s). j = i \<longrightarrow> st = t))"

fun immediate_event_ok :: "params \<Rightarrow> 'g env \<Rightarrow> event \<Rightarrow> bool" where
  "immediate_event_ok P s (Request i a) \<longleftrightarrow>
     (\<forall>(j, t, u, w)\<in>set (arrivals s). j = i \<longrightarrow> slot_free P u w \<longrightarrow> now s = t)"
| "immediate_event_ok P s (Initialize_customer i) \<longleftrightarrow>
     (\<forall>(j, t, u, w)\<in>set (arrivals s). j < i) \<and>
     (\<forall>(j, a)\<in>set (put_queue s). j < i) \<and>
     (\<forall>t p e j a. (t, p, e, Request j a) \<in> set (queue s) \<longrightarrow> j < i) \<and>
     (\<forall>(j, a, st)\<in>set (starts s). j < i)"
| "immediate_event_ok P s ev \<longleftrightarrow> True"

text \<open>Every record, and every service under way, belongs to a customer of \<open>starts\<close>.\<close>

definition linked_ok :: "'g env \<Rightarrow> bool" where
  "linked_ok s \<longleftrightarrow>
     (\<forall>r\<in>set (records s). \<exists>i. customer_id r = customer_label i \<and>
        (i, arrival_time r, start_service r) \<in> set (starts s)) \<and>
     (\<forall>t p e i a st d. (t, p, e, Service_timeout i a st d) \<in> set (queue s) \<longrightarrow>
        (i, a, st) \<in> set (starts s))"

fun linked_event_ok :: "'g env \<Rightarrow> event \<Rightarrow> bool" where
  "linked_event_ok s (Service_timeout i a st d) \<longleftrightarrow> (i, a, st) \<in> set (starts s)"
| "linked_event_ok s ev \<longleftrightarrow> True"

definition service_ok :: "params \<Rightarrow> 'g env \<Rightarrow> bool" where
  "service_ok P s \<longleftrightarrow>
     history_ok P s \<and> eids_ok s \<and> fifo_ok s \<and> immediate_ok P s \<and> linked_ok s"

text \<open>
  A measure of the work that is left before the horizon. Every entry of the heap
  weighs more than the entries its callbacks schedule; a generator timeout at time
  \<open>t\<close> weighs 7 for each minute between \<open>t\<close> and the horizon, which pays for the
  customer it spawns when the next gap is at least one minute.
\<close>

fun weight :: "params \<Rightarrow> entry \<Rightarrow> nat" where
  "weight P (t, p, e, Initialize_generator) = 7 * nat (sim_time P) + 1"
| "weight P (t, p, e, Generator_timeout) = 7 * nat (sim_time P - t)"
| "weight P (t, p, e, Initialize_customer i) = 6"
| "weight P (t, p, e, Request i a) = 4"
| "weight P (t, p, e, Service_timeout i a st d) = 3"
| "weight P (t, p, e, Release i) = 1"
| "weight P (t, p, e, Process_end) = 1"
| "weight P (t, p, e, Until) = 0"
| "weight P (t, p, e, Process_failed err) = 0"

definition potential :: "params \<Rightarrow> 'g env \<Rightarrow> nat" where
  "potential P s = sum_list (map (weight P) (queue s)) + 5 * length (put_queue s)"

text \<open>
  Parameters on which the engine does not fail: a cashier, a horizon after time 0, gaps
  of at least one minute, service times that are not negative, and bounds in order.
\<close>

definition valid_params :: "params \<Rightarrow> bool" where
  "valid_params P \<longleftrightarrow>
     0 < num_cashiers P \<and> 0 < sim_time P \<and>
     1 \<le> min_interarrival P \<and> min_interarrival P \<le> max_interarrival P \<and>
     0 \<le> min_service P \<and> min_service P \<le> max_service P"

text \<open>No process has failed.\<close>

definition nofail_ok :: "'g env \<Rightarrow> bool" where
  "nofail_ok s \<longleftrightarrow> (\<forall>(t, p, e, ev)\<in>set (queue s). \<forall>err. ev \<noteq> Process_failed err)"

text \<open>
  The states of the loop of \<^verbatim>\<open>env.run\<close>: \<open>loop_state R P n\<close> is the state after \<open>n\<close>
  steps, when the run is accepted and has not ended by then.
\<close>

fun run_steps :: "'g random_module \<Rightarrow> params \<Rightarrow> nat \<Rightarrow> 'g env \<Rightarrow> 'g env option" where
  "run_steps R P 0 s = Some s"
| "run_steps R P (Suc n) s =
     (case step R P s of
        Continue s' \<Rightarrow> run_steps R P n s'
      | Stopped s' \<Rightarrow> None
      | Raised e \<Rightarrow> None)"

definition loop_state :: "'g random_module \<Rightarrow> params \<Rightarrow> nat \<Rightarrow> 'g env option" where
  "loop_state R P n =
     (if num_cashiers P \<le> 0 \<or> sim_time P \<le> 0 then None
      else run_steps R P n (start_env R P))"

text \<open>
  The customers that hold a slot are those whose request is granted and not yet
  processed, or whose service is under way; \<open>holders\<close> are their entries in the heap
  and \<open>hold_index\<close> their indices. \<open>releases\<close> are the release events in the heap:
  slots that were given back and whose callback has not yet run.
\<close>

fun holding :: "event \<Rightarrow> bool" where
  "holding (Request i a) = True"
| "holding (Service_timeout i a st d) = True"
| "holding ev = False"

fun customer_of :: "event \<Rightarrow> nat" where
  "customer_of (Request i a) = i"
| "customer_of (Service_timeout i a st d) = i"
| "customer_of (Initialize_customer i) = i"
| "customer_of (Release i) = i"
| "customer_of ev = 0"

definition holders :: "'g env \<Rightarrow> entry list" where
  "holders s = filter (\<lambda>x. holding (event_of x)) (queue s)"

definition hold_index :: "'g env \<Rightarrow> nat multiset" where
  "hold_index s = mset (map (\<lambda>x. customer_of (event_of x)) (holders s))"

fun release_event :: "event \<Rightarrow> bool" where
  "release_event (Release i) = True"
| "release_event ev = False"

definition releases :: "'g env \<Rightarrow> entry list" where
  "releases s = filter (\<lambda>x. release_event (event_of x)) (queue s)"

text \<open>
  Capacity: at most \<open>num_cashiers\<close> customers hold a slot, and \<open>users\<close> lists exactly
  the customers that hold one.
\<close>

definition slots_ok :: "params \<Rightarrow> 'g env \<Rightarrow> bool" where
  "slots_ok P s \<longleftrightarrow>
     int (length (users s)) \<le> num_cashiers P \<and> mset (users s) = hold_index s"

text \<open>
  No slot stays idle while a customer waits: a release event is due at the current
  time, and when the put queue is not empty every free slot has its release event
  still in the heap.
\<close>

definition conserve_ok :: "params \<Rightarrow> 'g env \<Rightarrow> bool" where
  "conserve_ok P s \<longleftrightarrow>
     (\<forall>x\<in>set (queue s). release_event (event_of x) \<longrightarrow> fst x = now s) \<and>
     (put_queue s \<noteq> [] \<longrightarrow>
        num_cashiers P - int (length (users s)) \<le> int (length (releases s)))"

text \<open>
  Every customer that arrived is waiting in the put queue, or its request is granted
  and in the heap, or its service has started.
\<close>

definition placed :: "'g env \<Rightarrow> nat \<Rightarrow> int \<Rightarrow> bool" where
  "placed s i t \<longleftrightarrow>
     (i, t) \<in> set (put_queue s) \<or>
     (\<exists>t' p e. (t', p, e, Request i t) \<in> set (queue s)) \<or>
     (\<exists>st. (i, t, st) \<in> set (starts s))"

definition accounted_ok :: "'g env \<Rightarrow> bool" where
  "accounted_ok s \<longleftrightarrow> (\<forall>(i, t, u, w)\<in>set (arrivals s). placed s i t)"

definition run_ok :: "params \<Rightarrow> 'g env \<Rightarrow> bool" where
  "run_ok P s \<longleftrightarrow> service_ok P s \<and> slots_ok P s \<and> conserve_ok P s \<and> accounted_ok s"

section \<open>Proofs\<close>

subsection \<open>The sample runs, evaluated\<close>

lemma example_engine: "run_engine sample_random example_params 0 = Some (Inr example_final)"
  by code_simp

lemma example_simulation:
  "run_simulation sample_random example_params 0 =
     Some (Inr ([customer_1, customer_2], 1314989459))"
  by code_simp

lemma overtaking_simulation:
  "run_simulation sample_random overtaking_params 0 = Some (Inr (overtaking_records, 238077914))"
  by code_simp

lemma instant_simulation:
  "run_simulation sample_random instant_params 0 =
     Some (Inr ([instant_customer_1, instant_customer_2], 908095735))"
  by code_simp

lemma early_engine: "run_engine sample_random early_params 0 = Some (Inr early_final)"
  by code_simp

subsection \<open>The smallest entry of the heap\<close>

lemma key_le_iff:
  "key (t, p, e, ev) \<le> key (t', p', e', ev') \<longleftrightarrow> t < t' \<or> t \<le> t' \<and> (p < p' \<or> p \<le> p' \<and> e \<le> e')"
  by (simp add: key_def)

lemma arg_min_key_in: "q \<noteq> [] \<Longrightarrow> arg_min_list key q \<in> set q"
  by (rule arg_min_list_in)

lemma arg_min_key_le: "y \<in> set q \<Longrightarrow> key (arg_min_list key q) \<le> key y"
proof -
  assume y: "y \<in> set q"
  then have ne: "q \<noteq> []" by auto
  have "key (arg_min_list key q) = Min (key ` set q)"
    using ne by (rule f_arg_min_list_f)
  also have "\<dots> \<le> key y" using y by simp
  finally show ?thesis .
qed

lemma step_Continue:
  assumes "step R P s = Continue s'"
  obtains x where "smallest x s" and "event_of x \<noteq> Until"
    and "s' = callbacks R P (event_of x) (popped x s)"
proof -
  let ?x = "arg_min_list key (queue s)"
  from assms have ne: "queue s \<noteq> []" by (auto simp: step_def)
  have 1: "smallest ?x s"
    using ne by (simp add: smallest_def arg_min_key_in arg_min_key_le)
  from assms ne have 3: "event_of ?x \<noteq> Until"
    by (auto simp: step_def Let_def split: event.splits)
  from assms ne have 4: "s' = callbacks R P (event_of ?x) (popped ?x s)"
    by (auto simp: step_def Let_def split: event.splits)
  show thesis using that[OF 1 3 4] .
qed

lemma step_Stopped:
  assumes "step R P s = Stopped s'"
  obtains x where "x \<in> set (queue s)" and "event_of x = Until" and "s' = popped x s"
proof -
  let ?x = "arg_min_list key (queue s)"
  from assms have ne: "queue s \<noteq> []" by (auto simp: step_def)
  have 1: "?x \<in> set (queue s)" using ne by (rule arg_min_key_in)
  from assms ne have "event_of ?x = Until" "s' = popped ?x s"
    by (auto simp: step_def Let_def split: event.splits)
  with 1 show thesis using that by blast
qed

lemma in_remove1D: "y \<in> set (remove1 x q) \<Longrightarrow> y \<in> set q"
  by (metis notin_set_remove1)

subsection \<open>The clock, the priorities and the stop event\<close>

lemma key_le_fst: "key x \<le> key y \<Longrightarrow> fst x \<le> fst y"
  by (cases x; cases y) (auto simp: key_def)

lemma time_ok_popped:
  assumes "time_ok s" "x \<in> set (queue s)" "\<And>y. y \<in> set (queue s) \<Longrightarrow> key x \<le> key y"
  shows "time_ok (popped x s)"
  using assms by (fastforce simp: time_ok_def popped_def dest!: in_remove1D key_le_fst)

lemmas process_defs = customer_generator_def service_customer_arrive_def
  service_customer_start_def service_customer_finish_def release_def
  process_failed_def timeout_def schedule_def randint_def Let_def

lemmas handler_defs = process_defs trigger_put_def

lemma trigger_put_cases:
  obtains (idle) "trigger_put P s = s"
      and "put_queue s = [] \<or> \<not> int (length (users s)) < num_cashiers P"
  | (grant) i a rest where "put_queue s = (i, a) # rest"
      and "int (length (users s)) < num_cashiers P"
      and "trigger_put P s =
             schedule (Request i a) NORMAL 0 (s\<lparr>users := users s @ [i], put_queue := rest\<rparr>)"
proof (cases "put_queue s")
  case Nil
  then show ?thesis by (auto simp: trigger_put_def intro: idle)
next
  case (Cons x rest)
  obtain i a where "x = (i, a)" by (cases x)
  with Cons show ?thesis
    by (cases "int (length (users s)) < num_cashiers P")
      (auto simp: trigger_put_def intro: idle grant)
qed

lemma time_ok_callbacks: "time_ok s \<Longrightarrow> time_ok (callbacks R P ev s)"
  by (cases ev) (auto simp: time_ok_def handler_defs split: sum.splits prod.splits list.splits if_splits)

lemma prio_ok_callbacks: "prio_ok s \<Longrightarrow> prio_ok (callbacks R P ev s)"
  by (cases ev) (auto simp: prio_ok_def handler_defs split: sum.split prod.split list.split)

lemma prio_ok_popped: "prio_ok s \<Longrightarrow> prio_ok (popped x s)"
  by (auto simp: prio_ok_def popped_def dest!: in_remove1D)

lemma pop_time:
  assumes "base_ok P s" "smallest x s" "event_of x \<noteq> Until"
  shows "now s \<le> fst x" and "fst x < sim_time P"
proof -
  obtain t p e ev where x: "x = (t, p, e, ev)" by (cases x)
  from assms(1,2) show "now s \<le> fst x"
    by (auto simp: base_ok_def time_ok_def smallest_def)
  from assms(1) obtain e' where u: "(sim_time P, URGENT, e', Until) \<in> set (queue s)"
    by (auto simp: base_ok_def until_ok_def)
  with assms(2) have le: "key x \<le> key (sim_time P, URGENT, e', Until)"
    by (auto simp: smallest_def)
  from assms(1,2) x have p: "p = event_priority ev"
    by (auto simp: base_ok_def prio_ok_def smallest_def)
  from assms(1,2) x have i: "initialize_event ev \<Longrightarrow> t = now s"
    by (auto simp: base_ok_def until_ok_def smallest_def)
  from assms(1) have n: "now s < sim_time P" by (simp add: base_ok_def until_ok_def)
  from assms(3) x have nu: "ev \<noteq> Until" by (simp add: event_of_def)
  show "fst x < sim_time P"
    using le p i n nu unfolding x key_le_iff
    by (cases ev) (auto simp: URGENT_def NORMAL_def)
qed

lemma pop_no_pending:
  assumes "base_ok P s" "smallest x s" "event_of x \<noteq> Until" "\<not> initialize_event (event_of x)"
  shows "pending s = []"
proof (rule ccontr)
  assume "pending s \<noteq> []"
  then obtain y where "y \<in> set (pending s)" by (cases "pending s") auto
  then have y: "y \<in> set (queue s)" "initialize_event (event_of y)"
    by (simp_all add: pending_def)
  obtain t p e ev where x: "x = (t, p, e, ev)" by (cases x)
  obtain t' p' e' ev' where y': "y = (t', p', e', ev')" by (cases y)
  from assms(1,2) x have p: "p = event_priority ev"
    by (auto simp: base_ok_def prio_ok_def smallest_def)
  from assms(1) y y' have p': "p' = event_priority ev'" and t': "t' = now s"
    by (auto simp: base_ok_def prio_ok_def until_ok_def event_of_def)
  from assms(2) y have le: "key x \<le> key y" by (simp add: smallest_def)
  from pop_time(1)[OF assms(1-3)] x have "now s \<le> t" by simp
  with le p p' t' y(2) assms(3,4) show False
    unfolding x y' key_le_iff
    by (cases ev; cases ev') (auto simp: URGENT_def NORMAL_def event_of_def)
qed

lemma until_ok_popped:
  assumes "base_ok P s" "smallest x s" "event_of x \<noteq> Until"
  shows "until_ok P (popped x s)"
proof -
  from assms(1) obtain e' where u: "(sim_time P, URGENT, e', Until) \<in> set (queue s)"
    by (auto simp: base_ok_def until_ok_def)
  from assms(3) have "(sim_time P, URGENT, e', Until) \<noteq> x" by (auto simp: event_of_def)
  with u have 1: "(sim_time P, URGENT, e', Until) \<in> set (queue (popped x s))"
    by (simp add: popped_def)
  have 2: "now (popped x s) < sim_time P"
    using pop_time(2)[OF assms] by (simp add: popped_def)
  have 3: "t = fst x" if "(t, p, e, ev) \<in> set (queue (popped x s))" "initialize_event ev" for t p e ev
  proof -
    from that(1) have m: "(t, p, e, ev) \<in> set (queue s)" by (auto simp: popped_def dest: in_remove1D)
    with assms(1) that(2) have "t = now s" by (auto simp: base_ok_def until_ok_def)
    moreover from assms(2) m have "fst x \<le> t" by (auto simp: smallest_def dest!: key_le_fst)
    moreover note pop_time(1)[OF assms]
    ultimately show ?thesis by simp
  qed
  show ?thesis unfolding until_ok_def using 1 2 3 by (auto simp: popped_def)
qed

lemma until_ok_callbacks: "until_ok P s \<Longrightarrow> until_ok P (callbacks R P ev s)"
  by (cases ev) (auto simp: until_ok_def handler_defs split: sum.split prod.split list.split)

lemma pending_popped_le: "length (pending (popped x s)) \<le> length (pending s)"
  by (simp add: pending_def popped_def filter_remove1 length_remove1)

lemma pending_popped_initialize:
  assumes "pending_ok s" "x \<in> set (queue s)" "initialize_event (event_of x)"
  shows "pending (popped x s) = []"
proof -
  from assms(2,3) have "x \<in> set (pending s)" by (simp add: pending_def)
  then have "length (pending (popped x s)) = length (pending s) - 1"
    by (simp add: pending_def popped_def filter_remove1 length_remove1)
  with assms(1) show ?thesis by (simp add: pending_ok_def)
qed

lemma pending_popped_other:
  assumes "base_ok P s" "smallest x s" "event_of x \<noteq> Until"
  shows "pending (popped x s) = []"
proof (cases "initialize_event (event_of x)")
  case True
  with assms show ?thesis by (auto simp: base_ok_def smallest_def intro: pending_popped_initialize)
next
  case False
  from pop_no_pending[OF assms False] pending_popped_le[of x s] show ?thesis by simp
qed

lemma pending_ok_callbacks: "pending s = [] \<Longrightarrow> pending_ok (callbacks R P ev s)"
  by (cases ev)
    (auto simp: pending_ok_def pending_def event_of_def handler_defs
          split: sum.split prod.split list.split)

lemma base_ok_step:
  assumes "base_ok P s" "smallest x s" "event_of x \<noteq> Until"
  shows "base_ok P (callbacks R P (event_of x) (popped x s))"
proof -
  from assms(1,2) have "time_ok (popped x s)"
    by (auto simp: base_ok_def smallest_def intro: time_ok_popped)
  then have 1: "time_ok (callbacks R P (event_of x) (popped x s))" by (rule time_ok_callbacks)
  from assms(1) have "prio_ok (popped x s)" by (auto simp: base_ok_def intro: prio_ok_popped)
  then have 2: "prio_ok (callbacks R P (event_of x) (popped x s))" by (rule prio_ok_callbacks)
  have 3: "until_ok P (callbacks R P (event_of x) (popped x s))"
    using until_ok_popped[OF assms] by (rule until_ok_callbacks)
  have 4: "pending_ok (callbacks R P (event_of x) (popped x s))"
    using pending_popped_other[OF assms] by (rule pending_ok_callbacks)
  from 1 2 3 4 show ?thesis by (simp add: base_ok_def)
qed

subsection \<open>Invariants carried through the loop\<close>

text \<open>
  A run that returns stopped at a state that satisfies every predicate that holds at
  the start and is kept by each step.
\<close>

lemma run_loop_stops:
  assumes run: "run_loop R P s = Some (Inr s')"
    and inv: "I s"
    and pres: "\<And>s s'. I s \<Longrightarrow> step R P s = Continue s' \<Longrightarrow> I s'"
  shows "\<exists>s0. I s0 \<and> step R P s0 = Stopped s'"
proof -
  define Q where "Q = (\<lambda>(x :: ('a random_module \<times> params) \<times> 'a env) (y :: error + 'a env).
      fst (fst x) = R \<longrightarrow> snd (fst x) = P \<longrightarrow> I (snd x) \<longrightarrow>
      (\<forall>s'. y = Inr s' \<longrightarrow> (\<exists>s0. I s0 \<and> step R P s0 = Stopped s')))"
  have "Q ((R, P), s) (Inr s')"
  proof (rule run_loop.raw_induct[where Pa = Q, OF _ run])
    fix f :: "'a random_module \<Rightarrow> params \<Rightarrow> 'a env \<Rightarrow> (error + 'a env) option"
    fix R' P' s y
    assume IH: "\<And>R P s y. f R P s = Some y \<Longrightarrow> Q ((R, P), s) y"
    assume body: "(case step R' P' s of Continue s' \<Rightarrow> f R' P' s'
        | Stopped s' \<Rightarrow> Some (Inr s') | Raised e \<Rightarrow> Some (Inl e)) = Some y"
    show "Q ((R', P'), s) y"
    proof (cases "step R' P' s")
      case (Continue s1)
      with body have "f R' P' s1 = Some y" by simp
      from IH[OF this] Continue pres show ?thesis by (auto simp: Q_def)
    next
      case (Stopped s1)
      with body show ?thesis by (auto simp: Q_def)
    next
      case (Raised e)
      with body show ?thesis by (auto simp: Q_def)
    qed
  qed
  with inv show ?thesis by (simp add: Q_def)
qed

lemma run_engine_Inr:
  "run_engine R P g0 = Some (Inr s) \<Longrightarrow>
     0 < num_cashiers P \<and> 0 < sim_time P \<and> run_loop R P (start_env R P) = Some (Inr s)"
  by (auto simp: run_engine_def start_env_def Let_def schedule_def init_env_def split: if_splits)

lemma base_ok_start: "0 < sim_time P \<Longrightarrow> base_ok P (start_env R P)"
  by (auto simp: base_ok_def time_ok_def prio_ok_def until_ok_def pending_ok_def pending_def
      event_of_def start_env_def schedule_def init_env_def Let_def)

lemma base_ok_Continue:
  assumes "base_ok P s" "step R P s = Continue s'"
  shows "base_ok P s'"
proof -
  from assms(2) obtain x where x: "smallest x s" "event_of x \<noteq> Until"
    "s' = callbacks R P (event_of x) (popped x s)"
    by (rule step_Continue)
  from base_ok_step[OF assms(1) x(1,2)] x(3) show ?thesis by simp
qed

subsection \<open>Payloads and records\<close>

lemma payload_ok_popped:
  assumes "payload_ok s" "now s \<le> fst x"
  shows "payload_ok (popped x s)"
  using assms by (fastforce simp: payload_ok_def popped_def dest: in_remove1D)

lemma popped_entry_ok:
  assumes "payload_ok s" "x \<in> set (queue s)"
  shows "entry_ok (now (popped x s)) (event_of x)"
  using assms by (cases x) (auto simp: payload_ok_def popped_def event_of_def)

lemma payload_ok_trigger_put: "payload_ok s \<Longrightarrow> payload_ok (trigger_put P s)"
  by (rule trigger_put_cases[of P s]) (auto simp: payload_ok_def schedule_def)

lemma service_customer_arrive_eq:
  "service_customer_arrive P i s =
     trigger_put P
       (s\<lparr>put_queue := put_queue s @ [(i, now s)],
          arrivals := arrivals s @ [(i, now s, length (users s), length (put_queue s))]\<rparr>)"
  by (simp add: service_customer_arrive_def Let_def)

lemma payload_ok_callbacks:
  assumes "payload_ok s" "entry_ok (now s) ev"
  shows "payload_ok (callbacks R P ev s)"
proof (cases ev)
  case (Initialize_customer i)
  from assms(1) have "payload_ok
      (s\<lparr>put_queue := put_queue s @ [(i, now s)],
         arrivals := arrivals s @ [(i, now s, length (users s), length (put_queue s))]\<rparr>)"
    by (auto simp: payload_ok_def)
  then show ?thesis
    by (simp add: Initialize_customer service_customer_arrive_eq payload_ok_trigger_put)
next
  case (Release i)
  with assms(1) show ?thesis by (simp add: payload_ok_trigger_put)
qed (use assms in \<open>auto simp: payload_ok_def process_defs split: sum.split prod.split\<close>)

lemma records_ok_popped:
  assumes "records_ok s" "now s \<le> fst x"
  shows "records_ok (popped x s)"
  using assms by (fastforce simp: records_ok_def popped_def)

lemma records_ok_trigger_put: "records_ok s \<Longrightarrow> records_ok (trigger_put P s)"
  by (rule trigger_put_cases[of P s]) (auto simp: records_ok_def schedule_def)

lemma records_ok_callbacks:
  assumes "records_ok s" "entry_ok (now s) ev"
  shows "records_ok (callbacks R P ev s)"
proof (cases ev)
  case (Initialize_customer i)
  from assms(1) have "records_ok
      (s\<lparr>put_queue := put_queue s @ [(i, now s)],
         arrivals := arrivals s @ [(i, now s, length (users s), length (put_queue s))]\<rparr>)"
    by (auto simp: records_ok_def)
  then show ?thesis
    by (simp add: Initialize_customer service_customer_arrive_eq records_ok_trigger_put)
next
  case (Release i)
  with assms(1) show ?thesis by (simp add: records_ok_trigger_put)
qed (use assms in \<open>auto simp: records_ok_def record_ok_def sorted_append process_defs
      split: sum.split prod.split\<close>)

lemma engine_ok_start: "0 < sim_time P \<Longrightarrow> engine_ok P (start_env R P)"
  using base_ok_start[of P R]
  by (auto simp: engine_ok_def payload_ok_def records_ok_def start_env_def schedule_def
      init_env_def Let_def)

lemma engine_ok_Continue:
  assumes "engine_ok P s" "step R P s = Continue s'"
  shows "engine_ok P s'"
proof -
  from assms(2) obtain x where x: "smallest x s" "event_of x \<noteq> Until"
    "s' = callbacks R P (event_of x) (popped x s)"
    by (rule step_Continue)
  from assms(1) have b: "base_ok P s" and p: "payload_ok s" and r: "records_ok s"
    by (simp_all add: engine_ok_def)
  have le: "now s \<le> fst x" using b x(1,2) by (rule pop_time(1))
  have ok: "entry_ok (now (popped x s)) (event_of x)"
    using p x(1) by (auto simp: smallest_def intro: popped_entry_ok)
  have 1: "base_ok P s'" unfolding x(3) using b x(1,2) by (rule base_ok_step)
  have 2: "payload_ok s'" unfolding x(3)
    using payload_ok_popped[OF p le] ok by (rule payload_ok_callbacks)
  have 3: "records_ok s'" unfolding x(3)
    using records_ok_popped[OF r le] ok by (rule records_ok_callbacks)
  from 1 2 3 show ?thesis by (simp add: engine_ok_def)
qed

text \<open>Where a run that returns stopped: at a state that satisfies the invariant.\<close>

lemma run_engine_final:
  assumes "run_engine R P g0 = Some (Inr s)"
  obtains s0 x where "engine_ok P s0" and "x \<in> set (queue s0)" and "event_of x = Until"
    and "s = popped x s0"
proof -
  from run_engine_Inr[OF assms] have t: "0 < sim_time P"
    and run: "run_loop R P (start_env R P) = Some (Inr s)" by simp_all
  from run_loop_stops[of R P "start_env R P" s "engine_ok P", OF run engine_ok_start[OF t]]
    engine_ok_Continue
  obtain s0 where s0: "engine_ok P s0" "step R P s0 = Stopped s" by blast
  from s0(2) obtain x where "x \<in> set (queue s0)" "event_of x = Until" "s = popped x s0"
    by (rule step_Stopped)
  with s0(1) that show thesis by blast
qed

lemma run_simulation_Inr:
  "run_simulation R P g0 = Some (Inr (rs, g)) \<Longrightarrow>
     \<exists>s. run_engine R P g0 = Some (Inr s) \<and> rs = records s \<and> g = rng s"
  by (auto simp: run_simulation_def split: option.splits sum.splits)

subsection \<open>Claims about the records\<close>

text \<open>
  C3 (additivity). For every Customer Record that \<^verbatim>\<open>run_simulation\<close> returns,
  \<open>system_time = queue_time + service_duration\<close>, \<open>finish_time = start_service +
  service_duration\<close> and \<open>queue_time = start_service - arrival_time\<close>.
\<close>

theorem additivity:
  assumes "run_simulation R P g0 = Some (Inr (rs, g))" and "r \<in> set rs"
  shows "system_time r = queue_time r + service_duration r \<and>
         finish_time r = start_service r + service_duration r \<and>
         queue_time r = start_service r - arrival_time r"
proof -
  from run_simulation_Inr[OF assms(1)] obtain s where
    s: "run_engine R P g0 = Some (Inr s)" "rs = records s" by blast
  from s(1) obtain s0 x where "engine_ok P s0" "s = popped x s0" by (rule run_engine_final)
  with s(2) assms(2) have "record_ok r" by (auto simp: engine_ok_def records_ok_def popped_def)
  then show ?thesis by (auto simp: record_ok_def)
qed

theorem additivity_witness:
  "run_simulation sample_random example_params 0 =
     Some (Inr ([customer_1, customer_2], 1314989459)) \<and>
   customer_2 \<in> set [customer_1, customer_2] \<and>
   system_time customer_2 = queue_time customer_2 + service_duration customer_2 \<and>
   finish_time customer_2 = start_service customer_2 + service_duration customer_2 \<and>
   queue_time customer_2 = start_service customer_2 - arrival_time customer_2"
  using additivity[OF example_simulation, of customer_2] example_simulation by simp

text \<open>
  C7 (completion order). The records that \<^verbatim>\<open>run_simulation\<close> returns are in the order
  the services completed: \<open>finish_time\<close> is non-decreasing along the sequence. (This
  need not be the order of arrival: on the sample run with two cashiers the record of
  customer 5 comes before that of customer 4.)
\<close>

theorem completion_order:
  assumes "run_simulation R P g0 = Some (Inr (rs, g))"
  shows "sorted (map finish_time rs)"
proof -
  from run_simulation_Inr[OF assms] obtain s where
    s: "run_engine R P g0 = Some (Inr s)" "rs = records s" by blast
  from s(1) obtain s0 x where "engine_ok P s0" "s = popped x s0" by (rule run_engine_final)
  with s(2) show ?thesis by (simp add: engine_ok_def records_ok_def popped_def)
qed

theorem completion_order_witness:
  "run_simulation sample_random overtaking_params 0 =
     Some (Inr (overtaking_records, 238077914)) \<and>
   sorted (map finish_time overtaking_records) \<and>
   map finish_time overtaking_records = [3, 10, 11, 14, 15] \<and>
   map arrival_time overtaking_records = [1, 2, 5, 10, 7]"
  using completion_order[OF overtaking_simulation] overtaking_simulation
  by (simp add: overtaking_records_def)

text \<open>
  C1 (horizon), as the code has it. \<^verbatim>\<open>env.run(until=sim_time)\<close> stops the event loop
  when the clock reaches \<open>sim_time\<close>: the stop event is urgent and is popped before
  every other event of that time. A service that is still running then never
  completes, so every record has \<open>finish_time < sim_time\<close>.
\<close>

theorem records_before_horizon:
  assumes "run_simulation R P g0 = Some (Inr (rs, g))" and "r \<in> set rs"
  shows "finish_time r < sim_time P"
proof -
  from run_simulation_Inr[OF assms(1)] obtain s where
    s: "run_engine R P g0 = Some (Inr s)" "rs = records s" by blast
  from s(1) obtain s0 x where s0: "engine_ok P s0" "s = popped x s0" by (rule run_engine_final)
  from s0 s(2) assms(2) have "finish_time r \<le> now s0"
    by (auto simp: engine_ok_def records_ok_def popped_def)
  moreover from s0(1) have "now s0 < sim_time P"
    by (simp add: engine_ok_def base_ok_def until_ok_def)
  ultimately show ?thesis by simp
qed

theorem records_before_horizon_witness:
  "run_simulation sample_random example_params 0 =
     Some (Inr ([customer_1, customer_2], 1314989459)) \<and>
   customer_2 \<in> set [customer_1, customer_2] \<and>
   finish_time customer_2 < sim_time example_params"
  using records_before_horizon[OF example_simulation, of customer_2] example_simulation
  by simp

text \<open>
  The claim as stated fails on the sample run: at the horizon 11 customer 3 holds the
  slot (service from 10, due to end at 14), and the run returns the records of
  customers 1 and 2 only.
\<close>

theorem in_flight_service_counterexample:
  "run_engine sample_random example_params 0 = Some (Inr example_final) \<and>
   sim_time example_params = 11 \<and>
   users example_final = [3] \<and>
   (3, 6, 10) \<in> set (starts example_final) \<and>
   (14, NORMAL, 22, Service_timeout 3 6 10 4) \<in> set (queue example_final) \<and>
   run_simulation sample_random example_params 0 =
     Some (Inr ([customer_1, customer_2], 1314989459)) \<and>
   customer_label 3 \<notin> customer_id ` set [customer_1, customer_2]"
proof -
  have "customer_label 3 = ''Customer 3''" by code_simp
  then show ?thesis
    using example_engine example_simulation
    by (simp add: example_final_def example_params_def customer_1_def customer_2_def NORMAL_def)
qed

subsection \<open>Service durations\<close>

lemma randint_Inr:
  assumes "randint_in_range R" "randint R g a b = Inr (d, g')"
  shows "a \<le> d \<and> d \<le> b"
proof -
  from assms(2) have "a \<le> b" and "draw R g a b = (d, g')"
    by (auto simp: randint_def split: if_splits)
  with assms(1) show ?thesis unfolding randint_in_range_def by (metis fst_conv)
qed

lemma bounds_ok_popped: "bounds_ok P s \<Longrightarrow> bounds_ok P (popped x s)"
  by (auto simp: bounds_ok_def popped_def dest: in_remove1D)

lemma popped_entry_bounds:
  assumes "bounds_ok P s" "x \<in> set (queue s)"
  shows "entry_bounds P (event_of x)"
  using assms by (cases x) (auto simp: bounds_ok_def event_of_def)

lemma bounds_ok_trigger_put: "bounds_ok P s \<Longrightarrow> bounds_ok P (trigger_put P s)"
  by (rule trigger_put_cases[of P s]) (auto simp: bounds_ok_def schedule_def)

lemma bounds_ok_callbacks:
  assumes "randint_in_range R" "bounds_ok P s" "entry_bounds P ev"
  shows "bounds_ok P (callbacks R P ev s)"
proof (cases ev)
  case (Initialize_customer i)
  from assms(2) have "bounds_ok P
      (s\<lparr>put_queue := put_queue s @ [(i, now s)],
         arrivals := arrivals s @ [(i, now s, length (users s), length (put_queue s))]\<rparr>)"
    by (auto simp: bounds_ok_def)
  then show ?thesis
    by (simp add: Initialize_customer service_customer_arrive_eq bounds_ok_trigger_put)
next
  case (Release i)
  with assms(2) show ?thesis by (simp add: bounds_ok_trigger_put)
next
  case (Request i a)
  show ?thesis
  proof (cases "randint R (rng s) (min_service P) (max_service P)")
    case (Inl e)
    with assms(2) show ?thesis
      by (auto simp: Request bounds_ok_def service_customer_start_def release_def
          process_failed_def schedule_def Let_def)
  next
    case (Inr dg)
    obtain d g where dg: "dg = (d, g)" by (cases dg)
    from randint_Inr[OF assms(1) Inr[unfolded dg]] assms(2) show ?thesis
      by (auto simp: Request Inr dg bounds_ok_def service_customer_start_def release_def
          process_failed_def timeout_def schedule_def Let_def)
  qed
qed (use assms in \<open>auto simp: bounds_ok_def process_defs split: sum.split prod.split\<close>)

lemma bounds_ok_start: "bounds_ok P (start_env R P)"
  by (auto simp: bounds_ok_def start_env_def schedule_def init_env_def Let_def)

lemma bounds_ok_Continue:
  assumes "randint_in_range R" "bounds_ok P s" "step R P s = Continue s'"
  shows "bounds_ok P s'"
proof -
  from assms(3) obtain x where x: "smallest x s"
    "s' = callbacks R P (event_of x) (popped x s)"
    by (rule step_Continue)
  from x(1) have "x \<in> set (queue s)" by (simp add: smallest_def)
  then have "entry_bounds P (event_of x)" by (rule popped_entry_bounds[OF assms(2)])
  with assms(1) bounds_ok_popped[OF assms(2), of x]
  show ?thesis unfolding x(2) by (rule bounds_ok_callbacks)
qed

lemma run_engine_bounds:
  assumes "randint_in_range R" "run_engine R P g0 = Some (Inr s)"
  shows "\<forall>r\<in>set (records s).
           min_service P \<le> service_duration r \<and> service_duration r \<le> max_service P"
proof -
  from run_engine_Inr[OF assms(2)] have
    run: "run_loop R P (start_env R P) = Some (Inr s)" by simp
  from run_loop_stops[of R P "start_env R P" s "bounds_ok P", OF run bounds_ok_start]
    bounds_ok_Continue[OF assms(1)]
  obtain s0 where s0: "bounds_ok P s0" "step R P s0 = Stopped s" by blast
  from s0(2) obtain x where "s = popped x s0" by (rule step_Stopped)
  with s0(1) show ?thesis by (simp add: bounds_ok_def popped_def)
qed

lemma sample_random_in_range: "randint_in_range sample_random"
proof -
  have "a \<le> a + g mod (b - a + 1) \<and> a + g mod (b - a + 1) \<le> b" if "a \<le> b" for a b g :: int
  proof -
    from that have "0 < b - a + 1" by simp
    then have "0 \<le> g mod (b - a + 1)" and "g mod (b - a + 1) < b - a + 1"
      by (rule pos_mod_sign, rule pos_mod_bound)
    then show ?thesis by simp
  qed
  then show ?thesis by (simp add: randint_in_range_def sample_random_def)
qed

text \<open>
  C4 (non-negativity), as the code has it. Every record has \<open>queue_time \<ge> 0\<close>, and
  its \<open>service_duration\<close> is a value of \<^verbatim>\<open>randint(min_service, max_service)\<close> that
  \<^verbatim>\<open>env.timeout\<close> accepted: it is at least \<open>min_service\<close> and at least 0, hence at
  least 1 when \<open>min_service \<ge> 1\<close>. (\<^verbatim>\<open>randint\<close> is taken to return a value of its
  range.)
\<close>

theorem non_negativity:
  assumes "randint_in_range R"
    and "run_simulation R P g0 = Some (Inr (rs, g))" and "r \<in> set rs"
  shows "0 \<le> queue_time r \<and> 0 \<le> service_duration r \<and>
         min_service P \<le> service_duration r \<and>
         (1 \<le> min_service P \<longrightarrow> 1 \<le> service_duration r)"
proof -
  from run_simulation_Inr[OF assms(2)] obtain s where
    s: "run_engine R P g0 = Some (Inr s)" "rs = records s" by blast
  from s(1) obtain s0 x where "engine_ok P s0" "s = popped x s0" by (rule run_engine_final)
  with s(2) assms(3) have "record_ok r" by (auto simp: engine_ok_def records_ok_def popped_def)
  then have 1: "0 \<le> queue_time r" "0 \<le> service_duration r" by (auto simp: record_ok_def)
  from run_engine_bounds[OF assms(1) s(1)] s(2) assms(3)
  have 2: "min_service P \<le> service_duration r" by simp
  from 1 2 show ?thesis by simp
qed

theorem non_negativity_witness:
  "randint_in_range sample_random \<and>
   run_simulation sample_random example_params 0 =
     Some (Inr ([customer_1, customer_2], 1314989459)) \<and>
   customer_2 \<in> set [customer_1, customer_2] \<and>
   0 \<le> queue_time customer_2 \<and> 0 \<le> service_duration customer_2 \<and>
   min_service example_params \<le> service_duration customer_2 \<and>
   1 \<le> min_service example_params \<and> 1 \<le> service_duration customer_2"
proof -
  have "1 \<le> min_service example_params" by (simp add: example_params_def)
  with non_negativity[OF sample_random_in_range example_simulation, of customer_2]
  show ?thesis using sample_random_in_range example_simulation by simp
qed

text \<open>
  With \<open>min_service = max_service = 0\<close> the engine returns records whose
  \<open>service_duration\<close> is 0.
\<close>

theorem service_duration_counterexample:
  "run_simulation sample_random instant_params 0 =
     Some (Inr ([instant_customer_1, instant_customer_2], 908095735)) \<and>
   instant_customer_1 \<in> set [instant_customer_1, instant_customer_2] \<and>
   \<not> 1 \<le> service_duration instant_customer_1"
  using instant_simulation by (simp add: instant_customer_1_def)

subsection \<open>Determinism\<close>

text \<open>
  C2 (determinism). \<^verbatim>\<open>run_simulation\<close> starts with \<^verbatim>\<open>random.seed(random_seed)\<close>, so its
  result does not depend on the state the random module was in: for fixed parameters,
  any two invocations return the same records (and leave the module in the same
  state).
\<close>

theorem determinism: "run_simulation R P g1 = run_simulation R P g2"
  by (simp add: run_simulation_def run_engine_def)

subsection \<open>The arrivals\<close>

lemma no_pending_queue:
  assumes "pending s = []" "(t, p, e, ev) \<in> set (queue s)"
  shows "\<not> initialize_event ev"
proof
  assume "initialize_event ev"
  with assms(2) have "(t, p, e, ev) \<in> set (pending s)"
    by (simp add: pending_def event_of_def)
  with assms(1) show False by simp
qed

lemma arrivals_ok_popped:
  assumes "arrivals_ok s" "now s \<le> fst x"
  shows "arrivals_ok (popped x s)"
  using assms unfolding arrivals_ok_def popped_def
  by (fastforce dest: in_remove1D)

lemma popped_arrival_event_ok:
  assumes "arrivals_ok s" "x \<in> set (queue s)"
  shows "arrival_event_ok (popped x s) (event_of x)"
proof -
  obtain t p e ev where x: "x = (t, p, e, ev)" by (cases x)
  show ?thesis
  proof (cases ev)
    case (Initialize_customer i)
    with assms x show ?thesis by (auto simp: arrivals_ok_def popped_def event_of_def)
  next
    case Initialize_generator
    with assms x show ?thesis by (auto simp: arrivals_ok_def popped_def event_of_def)
  qed (simp_all add: x event_of_def)
qed

lemma arrivals_ok_trigger_put: "arrivals_ok s \<Longrightarrow> arrivals_ok (trigger_put P s)"
  by (rule trigger_put_cases[of P s]) (auto simp: arrivals_ok_def schedule_def)

lemma arrivals_ok_callbacks:
  assumes "arrivals_ok s" "pending s = []" "arrival_event_ok s ev"
  shows "arrivals_ok (callbacks R P ev s)"
proof -
  have none: "\<And>t p e i. (t, p, e, Initialize_customer i) \<notin> set (queue s)"
    "\<And>t p e. (t, p, e, Initialize_generator) \<notin> set (queue s)"
    using no_pending_queue[OF assms(2)] by fastforce+
  show ?thesis
  proof (cases ev)
    case (Initialize_customer i)
    from assms(1,3) none have "arrivals_ok
        (s\<lparr>put_queue := put_queue s @ [(i, now s)],
           arrivals := arrivals s @ [(i, now s, length (users s), length (put_queue s))]\<rparr>)"
      unfolding arrivals_ok_def Initialize_customer
      by (auto simp: sorted_wrt_append)
    then show ?thesis
      by (simp add: Initialize_customer service_customer_arrive_eq arrivals_ok_trigger_put)
  next
    case (Release i)
    with assms(1) show ?thesis by (simp add: arrivals_ok_trigger_put)
  next
    case Initialize_generator
    with assms(1,3) none show ?thesis
      by (auto simp: arrivals_ok_def process_defs split: sum.split prod.split)
  next
    case Generator_timeout
    with assms(1) none show ?thesis
      by (auto simp: arrivals_ok_def process_defs less_Suc_eq split: sum.split prod.split)
  next
    case (Request i a)
    with assms(1) none show ?thesis
      by (auto simp: arrivals_ok_def process_defs split: sum.split prod.split)
  next
    case (Service_timeout i a st d)
    with assms(1) none show ?thesis
      by (auto simp: arrivals_ok_def process_defs split: sum.split prod.split)
  qed (use assms(1) in simp_all)
qed

lemma history_ok_start: "0 < sim_time P \<Longrightarrow> history_ok P (start_env R P)"
  using engine_ok_start[of P R]
  by (auto simp: history_ok_def arrivals_ok_def start_env_def schedule_def init_env_def Let_def)

lemma history_ok_Continue:
  assumes "history_ok P s" "step R P s = Continue s'"
  shows "history_ok P s'"
proof -
  from assms(2) obtain x where x: "smallest x s" "event_of x \<noteq> Until"
    "s' = callbacks R P (event_of x) (popped x s)"
    by (rule step_Continue)
  from assms(1) have e: "engine_ok P s" and a: "arrivals_ok s"
    by (simp_all add: history_ok_def)
  from e have b: "base_ok P s" by (simp add: engine_ok_def)
  from x(1) have m: "x \<in> set (queue s)" by (simp add: smallest_def)
  have le: "now s \<le> fst x" using b x(1,2) by (rule pop_time(1))
  have 1: "engine_ok P s'" using e assms(2) by (rule engine_ok_Continue)
  have 2: "arrivals_ok s'" unfolding x(3)
    using arrivals_ok_popped[OF a le] pending_popped_other[OF b x(1,2)]
      popped_arrival_event_ok[OF a m]
    by (rule arrivals_ok_callbacks)
  from 1 2 show ?thesis by (simp add: history_ok_def)
qed

lemma run_engine_history:
  assumes "run_engine R P g0 = Some (Inr s)"
  obtains s0 x where "history_ok P s0" and "s = popped x s0"
proof -
  from run_engine_Inr[OF assms] have t: "0 < sim_time P"
    and run: "run_loop R P (start_env R P) = Some (Inr s)" by simp_all
  from run_loop_stops[of R P "start_env R P" s "history_ok P", OF run history_ok_start[OF t]]
    history_ok_Continue
  obtain s0 where s0: "history_ok P s0" "step R P s0 = Stopped s" by blast
  from s0(2) obtain x where "s = popped x s0" by (rule step_Stopped)
  with s0(1) that show thesis by blast
qed

lemma popped_arrivals [simp]: "arrivals (popped x s) = arrivals s"
  by (simp add: popped_def)

text \<open>
  C5 (horizon respect). No arrival is generated after the horizon: every arrival of a
  run is logged at a time before \<open>sim_time\<close>.
\<close>

theorem horizon_respect:
  assumes "run_engine R P g0 = Some (Inr s)" and "(i, t, u, w) \<in> set (arrivals s)"
  shows "t < sim_time P \<and> \<not> sim_time P < t"
proof -
  from assms(1) obtain s0 x where s0: "history_ok P s0" "s = popped x s0"
    by (rule run_engine_history)
  from s0 assms(2) have "t \<le> now s0" by (auto simp: history_ok_def arrivals_ok_def)
  moreover from s0(1) have "now s0 < sim_time P"
    by (simp add: history_ok_def engine_ok_def base_ok_def until_ok_def)
  ultimately show ?thesis by simp
qed

theorem horizon_respect_witness:
  "run_engine sample_random example_params 0 = Some (Inr example_final) \<and>
   (5, 10, 0, 2) \<in> set (arrivals example_final) \<and>
   (10 :: int) < sim_time example_params \<and> \<not> sim_time example_params < 10"
  using horizon_respect[OF example_engine, of 5 10 0 2] example_engine
  by (simp add: example_final_def)

lemma sorted_wrt_pair:
  assumes "sorted_wrt (\<lambda>x y. fst x < fst y \<and> f x \<le> (f y :: int)) xs"
    and "x \<in> set xs" "y \<in> set xs" "fst x < (fst y :: nat)"
  shows "f x \<le> f y"
  using assms
proof (induction xs)
  case Nil
  then show ?case by simp
next
  case (Cons z zs)
  then show ?case by (auto simp: dest: less_asym)
qed

text \<open>
  C6 (ordering). Of two customers of a run, the one with the smaller index did not
  arrive later.
\<close>

theorem arrival_order:
  assumes "run_engine R P g0 = Some (Inr s)"
    and "(i, t, u, w) \<in> set (arrivals s)" and "(j, t', u', w') \<in> set (arrivals s)"
    and "i < j"
  shows "t \<le> t'"
proof -
  from assms(1) obtain s0 x where s0: "history_ok P s0" "s = popped x s0"
    by (rule run_engine_history)
  then have "sorted_wrt (\<lambda>x y. fst x < fst y \<and> fst (snd x) \<le> fst (snd y)) (arrivals s)"
    by (simp add: history_ok_def arrivals_ok_def)
  from sorted_wrt_pair[OF this assms(2,3)] assms(4) show ?thesis by simp
qed

theorem arrival_order_witness:
  "run_engine sample_random example_params 0 = Some (Inr example_final) \<and>
   (2, 4, 1, 0) \<in> set (arrivals example_final) \<and>
   (5, 10, 0, 2) \<in> set (arrivals example_final) \<and>
   (2 :: nat) < 5 \<and> (4 :: int) \<le> 10"
  using arrival_order[OF example_engine, of 2 4 1 0 5 10 0 2] example_engine
  by (simp add: example_final_def)

subsection \<open>The first arrival\<close>

lemma gaps_ok_popped: "gaps_ok P s \<Longrightarrow> gaps_ok P (popped x s)"
  unfolding gaps_ok_def popped_def by (fastforce dest: in_remove1D)

lemma popped_spawn_event:
  assumes "gaps_ok P s" "x \<in> set (queue s)" "spawn_event (event_of x)"
  shows "min_interarrival P \<le> now (popped x s)"
  using assms by (cases x) (auto simp: gaps_ok_def popped_def event_of_def)

lemma gaps_ok_trigger_put: "gaps_ok P s \<Longrightarrow> gaps_ok P (trigger_put P s)"
  by (rule trigger_put_cases[of P s]) (auto simp: gaps_ok_def schedule_def)

lemma gaps_ok_customer_generator:
  assumes "randint_in_range R" "gaps_ok P s" "0 \<le> now s"
  shows "gaps_ok P (customer_generator R P s)"
proof (cases "randint R (rng s) (min_interarrival P) (max_interarrival P)")
  case (Inl e)
  with assms(2) show ?thesis
    by (auto simp: gaps_ok_def customer_generator_def process_failed_def schedule_def Let_def)
next
  case (Inr dg)
  obtain d g where dg: "dg = (d, g)" by (cases dg)
  from randint_Inr[OF assms(1) Inr[unfolded dg]] have "min_interarrival P \<le> d" by simp
  with assms(2,3) show ?thesis
    by (auto simp: Inr dg gaps_ok_def customer_generator_def process_failed_def timeout_def
        schedule_def Let_def)
qed

lemma gaps_ok_callbacks:
  assumes "randint_in_range R" "gaps_ok P s" "0 \<le> now s"
    and "spawn_event ev \<Longrightarrow> min_interarrival P \<le> now s"
  shows "gaps_ok P (callbacks R P ev s)"
proof (cases ev)
  case Initialize_generator
  from assms(2) have "gaps_ok P (s\<lparr>gen_i := 0\<rparr>)" by (simp add: gaps_ok_def)
  with assms(1,3) show ?thesis
    by (simp add: Initialize_generator gaps_ok_customer_generator)
next
  case Generator_timeout
  with assms(2,4) have "gaps_ok P (schedule (Initialize_customer (gen_i s)) URGENT 0 s)"
    by (auto simp: gaps_ok_def schedule_def)
  with assms(1,3) show ?thesis
    by (simp add: Generator_timeout gaps_ok_customer_generator schedule_def)
next
  case (Initialize_customer i)
  with assms(2,3,4) have "gaps_ok P
      (s\<lparr>put_queue := put_queue s @ [(i, now s)],
         arrivals := arrivals s @ [(i, now s, length (users s), length (put_queue s))]\<rparr>)"
    by (auto simp: gaps_ok_def)
  then show ?thesis
    by (simp add: Initialize_customer service_customer_arrive_eq gaps_ok_trigger_put)
next
  case (Release i)
  with assms(2) show ?thesis by (simp add: gaps_ok_trigger_put)
qed (use assms(2) in \<open>auto simp: gaps_ok_def process_defs split: sum.split prod.split\<close>)

lemma gaps_ok_start: "gaps_ok P (start_env R P)"
  by (auto simp: gaps_ok_def start_env_def schedule_def init_env_def Let_def)

lemma spawning_ok_Continue:
  assumes "randint_in_range R" "spawning_ok P s" "step R P s = Continue s'"
  shows "spawning_ok P s'"
proof -
  from assms(3) obtain x where x: "smallest x s" "event_of x \<noteq> Until"
    "s' = callbacks R P (event_of x) (popped x s)"
    by (rule step_Continue)
  from assms(2) have b: "base_ok P s" and g: "gaps_ok P s" by (simp_all add: spawning_ok_def)
  from x(1) have m: "x \<in> set (queue s)" by (simp add: smallest_def)
  from b have "0 \<le> now s" by (simp add: base_ok_def time_ok_def)
  with pop_time(1)[OF b x(1,2)] have n: "0 \<le> now (popped x s)" by (simp add: popped_def)
  have 1: "base_ok P s'" unfolding x(3) using b x(1,2) by (rule base_ok_step)
  have 2: "gaps_ok P s'" unfolding x(3)
    using assms(1) gaps_ok_popped[OF g] n popped_spawn_event[OF g m]
    by (rule gaps_ok_callbacks)
  from 1 2 show ?thesis by (simp add: spawning_ok_def)
qed

text \<open>
  C10 (first arrival), as the code has it. The generator draws a gap and waits for it
  before it spawns its first customer, and \<^verbatim>\<open>env.timeout\<close> rejects a negative gap:
  every arrival time is at least \<open>min_interarrival\<close> and at least 0, hence after time
  0 when \<open>min_interarrival \<ge> 1\<close>. (\<^verbatim>\<open>randint\<close> is taken to return a value of its
  range.)
\<close>

theorem first_arrival:
  assumes "randint_in_range R"
    and "run_engine R P g0 = Some (Inr s)" and "(i, t, u, w) \<in> set (arrivals s)"
  shows "min_interarrival P \<le> t \<and> 0 \<le> t \<and> (1 \<le> min_interarrival P \<longrightarrow> 0 < t)"
proof -
  from run_engine_Inr[OF assms(2)] have pos: "0 < sim_time P"
    and run: "run_loop R P (start_env R P) = Some (Inr s)" by simp_all
  have "spawning_ok P (start_env R P)"
    using base_ok_start[OF pos, of R] gaps_ok_start[of P R] by (simp add: spawning_ok_def)
  from run_loop_stops[of R P "start_env R P" s "spawning_ok P", OF run this]
    spawning_ok_Continue[OF assms(1)]
  obtain s0 where s0: "spawning_ok P s0" "step R P s0 = Stopped s" by blast
  from s0(2) obtain x where "s = popped x s0" by (rule step_Stopped)
  with s0(1) assms(3) show ?thesis
    by (auto simp: spawning_ok_def gaps_ok_def)
qed

theorem first_arrival_witness:
  "randint_in_range sample_random \<and>
   run_engine sample_random example_params 0 = Some (Inr example_final) \<and>
   (1, 2, 0, 0) \<in> set (arrivals example_final) \<and>
   min_interarrival example_params \<le> 2 \<and> (0 :: int) \<le> 2 \<and>
   1 \<le> min_interarrival example_params \<and> (0 :: int) < 2"
proof -
  have "1 \<le> min_interarrival example_params" by (simp add: example_params_def)
  with first_arrival[OF sample_random_in_range example_engine, of 1 2 0 0]
  show ?thesis
    using sample_random_in_range example_engine by (simp add: example_final_def)
qed

text \<open>
  With \<open>min_interarrival = 0\<close> the first gap can be 0, and the first customer
  arrives at time 0.
\<close>

theorem arrival_at_zero_counterexample:
  "run_engine sample_random early_params 0 = Some (Inr early_final) \<and>
   (1, 0, 0, 0) \<in> set (arrivals early_final) \<and>
   arrival_time (hd (records early_final)) = 0"
  using early_engine by (simp add: early_final_def)

subsection \<open>First come, first served\<close>

lemma distinct_map_remove1: "distinct (map f xs) \<Longrightarrow> distinct (map f (remove1 x xs))"
  by (induction xs) (auto dest: in_remove1D)

lemma remove1_other_image:
  assumes "distinct (map f xs)" "x \<in> set xs" "y \<in> set (remove1 x xs)"
  shows "f y \<noteq> f x"
proof -
  from assms(1) have d: "distinct xs" and i: "inj_on f (set xs)"
    by (simp_all add: distinct_map)
  from d assms(3) have "y \<in> set xs" "y \<noteq> x" by (simp_all add: set_remove1_eq)
  with i assms(2) show ?thesis by (auto dest: inj_onD)
qed

lemma eids_ok_popped: "eids_ok s \<Longrightarrow> eids_ok (popped x s)"
  by (auto simp: eids_ok_def popped_def distinct_map_remove1 dest: in_remove1D)

lemma eids_ok_trigger_put: "eids_ok s \<Longrightarrow> eids_ok (trigger_put P s)"
  by (rule trigger_put_cases[of P s]) (auto simp: eids_ok_def schedule_def)

lemma eids_ok_callbacks:
  assumes "eids_ok s"
  shows "eids_ok (callbacks R P ev s)"
proof (cases ev)
  case (Initialize_customer i)
  from assms have "eids_ok
      (s\<lparr>put_queue := put_queue s @ [(i, now s)],
         arrivals := arrivals s @ [(i, now s, length (users s), length (put_queue s))]\<rparr>)"
    by (auto simp: eids_ok_def)
  then show ?thesis
    by (simp add: Initialize_customer service_customer_arrive_eq eids_ok_trigger_put)
next
  case (Release i)
  with assms show ?thesis by (simp add: eids_ok_trigger_put)
qed (use assms in \<open>fastforce simp: eids_ok_def process_defs split: sum.split prod.split\<close>)+

lemma starts_ok_popped:
  assumes "starts_ok s" "now s \<le> fst x"
  shows "starts_ok (popped x s)"
  using assms unfolding starts_ok_def popped_def
  by (fastforce dest: in_remove1D)

lemma waiting_ok_popped: "waiting_ok s \<Longrightarrow> waiting_ok (popped x s)"
  by (simp add: waiting_ok_def popped_def)

lemma requests_ok_popped:
  assumes "requests_ok s" "smallest x s" "now s \<le> fst x"
  shows "requests_ok (popped x s)"
proof -
  have t: "t = fst x" if "(t, p, e, Request i a) \<in> set (queue s)" for t p e i a
  proof -
    from assms(1) that have "t = now s" by (auto simp: requests_ok_def)
    moreover from assms(2) that have "fst x \<le> t"
      by (auto simp: smallest_def dest!: key_le_fst)
    ultimately show ?thesis using assms(3) by simp
  qed
  show ?thesis
    unfolding requests_ok_def
  proof (intro allI impI)
    fix t p e i a
    assume "(t, p, e, Request i a) \<in> set (queue (popped x s))"
    then have m: "(t, p, e, Request i a) \<in> set (queue s)"
      by (auto simp: popped_def dest: in_remove1D)
    from assms(1) m have 1: "\<exists>u w. (i, a, u, w) \<in> set (arrivals s)"
      and 2: "\<forall>(j, b)\<in>set (put_queue s). i < j"
      and 3: "\<forall>t' p' e' j b. (t', p', e', Request j b) \<in> set (queue s) \<longrightarrow> e < e' \<longrightarrow> i < j"
      unfolding requests_ok_def by blast+
    from 3 have c3: "\<forall>t' p' e' j b. (t', p', e', Request j b) \<in> set (queue (popped x s))
        \<longrightarrow> e < e' \<longrightarrow> i < j"
      unfolding popped_def by (simp del: ex_simps) (blast dest: in_remove1D)
    from t[OF m] 1 2 c3
    show "t = now (popped x s) \<and> (\<exists>u w. (i, a, u, w) \<in> set (arrivals (popped x s))) \<and>
        (\<forall>(j, b)\<in>set (put_queue (popped x s)). i < j) \<and>
        (\<forall>t' p' e' j b. (t', p', e', Request j b) \<in> set (queue (popped x s)) \<longrightarrow>
           e < e' \<longrightarrow> i < j)"
      by (simp add: popped_def)
  qed
qed

lemma popped_fifo_event_ok:
  assumes "base_ok P s" "eids_ok s" "fifo_ok s" "arrivals_ok s" "smallest x s"
  shows "fifo_event_ok (popped x s) (event_of x)"
proof -
  obtain t p e ev where x: "x = (t, p, e, ev)" by (cases x)
  from assms(5) x have m: "(t, p, e, ev) \<in> set (queue s)" by (simp add: smallest_def)
  show ?thesis
  proof (cases ev)
    case (Initialize_customer i)
    with assms(4) m show ?thesis
      by (auto simp: x event_of_def arrivals_ok_def popped_def)
  next
    case (Request i a)
    from assms(3) have so: "starts_ok s" and ro: "requests_ok s"
      by (simp_all add: fifo_ok_def)
    from so m have 1: "\<forall>(j, b, st)\<in>set (starts s). j < i"
      unfolding starts_ok_def Request by blast
    from ro m have 3: "\<forall>(j, b)\<in>set (put_queue s). i < j"
      and 4: "\<exists>u w. (i, a, u, w) \<in> set (arrivals s)" and tn: "t = now s"
      unfolding requests_ok_def Request by blast+
    have 2: "i < j" if y: "(t', p', e', Request j b) \<in> set (remove1 x (queue s))"
      for t' p' e' j b
    proof -
      from y have my: "(t', p', e', Request j b) \<in> set (queue s)" by (rule in_remove1D)
      with ro have "t' = now s" unfolding requests_ok_def by blast
      moreover from assms(1) m my have "p = NORMAL" "p' = NORMAL"
        by (auto simp: base_ok_def prio_ok_def Request)
      moreover from assms(5) my have "key x \<le> key (t', p', e', Request j b)"
        by (simp add: smallest_def)
      ultimately have "e \<le> e'" using tn by (simp add: x key_le_iff)
      moreover from assms(2) have "distinct (map (\<lambda>x. fst (snd (snd x))) (queue s))"
        by (simp add: eids_ok_def)
      from remove1_other_image[OF this _ y, of] m x have "e' \<noteq> e" by simp
      ultimately have "e < e'" by simp
      with ro m my show ?thesis unfolding requests_ok_def Request by blast
    qed
    from 1 2 3 4 show ?thesis
      by (simp add: x event_of_def Request popped_def)
  qed (simp_all add: x event_of_def)
qed

lemma fifo_ok_trigger_put:
  assumes "fifo_ok s" "\<forall>(t, p, e, ev)\<in>set (queue s). e < eid s"
  shows "fifo_ok (trigger_put P s)"
proof (cases rule: trigger_put_cases[of P s])
  case idle
  with assms(1) show ?thesis by simp
next
  case (grant h a rest)
  from assms(1) have so: "starts_ok s" and ro: "requests_ok s" and wo: "waiting_ok s"
    by (simp_all add: fifo_ok_def)
  let ?s = "schedule (Request h a) NORMAL 0 (s\<lparr>users := users s @ [h], put_queue := rest\<rparr>)"
  have q: "queue ?s = queue s @ [(now s, NORMAL, eid s, Request h a)]"
    and f: "put_queue ?s = rest" "starts ?s = starts s" "arrivals ?s = arrivals s" "now ?s = now s"
    by (simp_all add: schedule_def)
  from wo grant(1) have hr: "\<forall>(j, b)\<in>set rest. h < j"
    and known: "\<exists>u w. (h, a, u, w) \<in> set (arrivals s)"
    and wr: "sorted_wrt (<) (map fst rest)" "\<forall>(i, a)\<in>set rest. \<exists>u w. (i, a, u, w) \<in> set (arrivals s)"
    by (auto simp: waiting_ok_def)
  have 1: "starts_ok ?s"
    using so grant(1) unfolding starts_ok_def q f by (auto; blast)
  have 3: "waiting_ok ?s"
    using wr unfolding waiting_ok_def f by simp
  have 2: "requests_ok ?s"
    unfolding requests_ok_def q f
  proof (intro allI impI)
    fix t p e i b
    assume "(t, p, e, Request i b) \<in> set (queue s @ [(now s, NORMAL, eid s, Request h a)])"
    then consider (old) "(t, p, e, Request i b) \<in> set (queue s)"
      | (new) "t = now s" "e = eid s" "i = h" "b = a" by auto
    then show "t = now s \<and> (\<exists>u w. (i, b, u, w) \<in> set (arrivals s)) \<and>
        (\<forall>(j, b)\<in>set rest. i < j) \<and>
        (\<forall>t' p' e' j b. (t', p', e', Request j b) \<in> set (queue s @ [(now s, NORMAL, eid s, Request h a)])
           \<longrightarrow> e < e' \<longrightarrow> i < j)"
    proof cases
      case old
      from ro old have o: "t = now s" "\<exists>u w. (i, b, u, w) \<in> set (arrivals s)"
        "\<forall>(j, b)\<in>set (put_queue s). i < j"
        "\<forall>t' p' e' j b. (t', p', e', Request j b) \<in> set (queue s) \<longrightarrow> e < e' \<longrightarrow> i < j"
        unfolding requests_ok_def by blast+
      from o(3) grant(1) have "i < h" "\<forall>(j, b)\<in>set rest. i < j" by auto
      with o show ?thesis by auto
    next
      case new
      have "\<not> eid s < e'" if "(t', p', e', Request j b') \<in> set (queue s)" for t' p' e' j b'
        using assms(2) that by fastforce
      with new hr known show ?thesis by auto
    qed
  qed
  from 1 2 3 show ?thesis by (simp add: fifo_ok_def grant(3))
qed

text \<open>A callback that leaves the logs, the put queue and the requests of the heap alone.\<close>

lemma fifo_ok_frame:
  assumes "fifo_ok s"
    and "\<And>t p e j b. (t, p, e, Request j b) \<in> set (queue s') \<longleftrightarrow>
           (t, p, e, Request j b) \<in> set (queue s)"
    and "starts s' = starts s" "put_queue s' = put_queue s" "arrivals s' = arrivals s"
      "now s' = now s"
  shows "fifo_ok s'"
  using assms(1) unfolding fifo_ok_def starts_ok_def requests_ok_def waiting_ok_def assms(2-)
  by simp

lemma customer_generator_frame:
  "(t, p, e, Request j b) \<in> set (queue (customer_generator R P s)) \<longleftrightarrow>
     (t, p, e, Request j b) \<in> set (queue s)"
  "starts (customer_generator R P s) = starts s"
  "put_queue (customer_generator R P s) = put_queue s"
  "arrivals (customer_generator R P s) = arrivals s"
  "now (customer_generator R P s) = now s"
  by (auto simp: process_defs split: sum.split prod.split)

lemma service_customer_finish_frame:
  "(t, p, e, Request j b) \<in> set (queue (service_customer_finish i a st d s)) \<longleftrightarrow>
     (t, p, e, Request j b) \<in> set (queue s)"
  "starts (service_customer_finish i a st d s) = starts s"
  "put_queue (service_customer_finish i a st d s) = put_queue s"
  "arrivals (service_customer_finish i a st d s) = arrivals s"
  "now (service_customer_finish i a st d s) = now s"
  by (auto simp: process_defs split: sum.split prod.split)

lemma service_customer_start_frame:
  "(t, p, e, Request j b) \<in> set (queue (service_customer_start R P i a s)) \<longleftrightarrow>
     (t, p, e, Request j b) \<in> set (queue s)"
  "starts (service_customer_start R P i a s) = starts s @ [(i, a, now s)]"
  "put_queue (service_customer_start R P i a s) = put_queue s"
  "arrivals (service_customer_start R P i a s) = arrivals s"
  "now (service_customer_start R P i a s) = now s"
  by (auto simp: process_defs split: sum.split prod.split)

lemma fifo_ok_callbacks:
  assumes "fifo_ok s" "\<forall>(t, p, e, ev)\<in>set (queue s). e < eid s" "fifo_event_ok s ev"
  shows "fifo_ok (callbacks R P ev s)"
proof (cases ev)
  case Initialize_generator
  show ?thesis unfolding Initialize_generator callbacks.simps
    by (rule fifo_ok_frame[OF assms(1)]) (simp_all add: customer_generator_frame)
next
  case Generator_timeout
  show ?thesis unfolding Generator_timeout callbacks.simps
    by (rule fifo_ok_frame[OF assms(1)]) (simp_all add: customer_generator_frame schedule_def)
next
  case (Service_timeout i a st d)
  show ?thesis unfolding Service_timeout callbacks.simps
    by (rule fifo_ok_frame[OF assms(1)]) (simp_all add: service_customer_finish_frame)
next
  case (Release i)
  with assms(1,2) show ?thesis by (simp add: fifo_ok_trigger_put)
next
  case (Request i a)
  let ?s = "service_customer_start R P i a s"
  note f = service_customer_start_frame[where R = R and P = P and i = i and a = a and s = s]
  from assms(1) have so: "starts_ok s" and ro: "requests_ok s" and wo: "waiting_ok s"
    by (simp_all add: fifo_ok_def)
  from assms(3) have ev: "\<forall>(j, b, st)\<in>set (starts s). j < i"
    "\<forall>t p e j b. (t, p, e, Request j b) \<in> set (queue s) \<longrightarrow> i < j"
    "\<forall>(j, b)\<in>set (put_queue s). i < j"
    "\<exists>u w. (i, a, u, w) \<in> set (arrivals s)"
    by (simp_all add: Request)
  have 1: "starts_ok ?s"
    using so ev unfolding starts_ok_def f
    by (auto simp: sorted_wrt_append; blast)
  have 2: "requests_ok ?s" using ro unfolding requests_ok_def f by simp
  have 3: "waiting_ok ?s" using wo unfolding waiting_ok_def f by simp
  from 1 2 3 show ?thesis by (simp add: fifo_ok_def Request)
next
  case (Initialize_customer i)
  let ?s = "s\<lparr>put_queue := put_queue s @ [(i, now s)],
         arrivals := arrivals s @ [(i, now s, length (users s), length (put_queue s))]\<rparr>"
  from assms(1) have so: "starts_ok s" and ro: "requests_ok s" and wo: "waiting_ok s"
    by (simp_all add: fifo_ok_def)
  from assms(3) have ev: "\<forall>(j, t, u, w)\<in>set (arrivals s). j < i"
    by (simp add: Initialize_customer)
  have 1: "starts_ok ?s"
    using so ev unfolding starts_ok_def by (auto; blast)
  have 2: "requests_ok ?s"
    using ro ev unfolding requests_ok_def by (auto; blast)
  have 3: "waiting_ok ?s"
    using wo ev unfolding waiting_ok_def by (auto simp: sorted_wrt_append; blast)
  from 1 2 3 have "fifo_ok ?s" by (simp add: fifo_ok_def)
  moreover from assms(2) have "\<forall>(t, p, e, ev)\<in>set (queue ?s). e < eid ?s" by simp
  ultimately have "fifo_ok (trigger_put P ?s)" by (rule fifo_ok_trigger_put)
  then show ?thesis by (simp add: Initialize_customer service_customer_arrive_eq)
qed (use assms(1) in simp_all)

lemma immediate_ok_popped: "immediate_ok P s \<Longrightarrow> immediate_ok P (popped x s)"
  unfolding immediate_ok_def popped_def
  by (simp del: ex_simps) (blast dest: in_remove1D)

lemma immediate_ok_frame:
  assumes "immediate_ok P s"
    and "\<And>t p e j b. (t, p, e, Request j b) \<in> set (queue s') \<longleftrightarrow>
           (t, p, e, Request j b) \<in> set (queue s)"
    and "starts s' = starts s" "put_queue s' = put_queue s" "arrivals s' = arrivals s"
      "now s' = now s"
  shows "immediate_ok P s'"
  using assms(1) unfolding immediate_ok_def assms(2-)
  by simp

lemma immediate_ok_trigger_put:
  assumes "immediate_ok P s"
  shows "immediate_ok P (trigger_put P s)"
proof (cases rule: trigger_put_cases[of P s])
  case idle
  with assms show ?thesis by simp
next
  case (grant h a rest)
  show ?thesis
    unfolding grant(3) immediate_ok_def
  proof (intro ballI, clarify)
    fix i t u w
    assume m: "(i, t, u, w) \<in> set (arrivals (schedule (Request h a) NORMAL 0
        (s\<lparr>users := users s @ [h], put_queue := rest\<rparr>)))" and fr: "slot_free P u w"
    from m have m': "(i, t, u, w) \<in> set (arrivals s)" by (simp add: schedule_def)
    from assms m' fr have 1: "\<forall>(j, a)\<in>set (put_queue s). j \<noteq> i"
      and 2: "\<forall>t' p e a. (t', p, e, Request i a) \<in> set (queue s) \<longrightarrow> t' = t"
      and 3: "\<forall>(j, a, st)\<in>set (starts s). j = i \<longrightarrow> st = t"
      unfolding immediate_ok_def by blast+
    from 1 grant(1) have "h \<noteq> i" "\<forall>(j, a)\<in>set rest. j \<noteq> i" by auto
    with 2 3 show "(\<forall>(j, a)\<in>set (put_queue (schedule (Request h a) NORMAL 0
          (s\<lparr>users := users s @ [h], put_queue := rest\<rparr>))). j \<noteq> i) \<and>
        (\<forall>t' p e aa. (t', p, e, Request i aa) \<in> set (queue (schedule (Request h a) NORMAL 0
          (s\<lparr>users := users s @ [h], put_queue := rest\<rparr>))) \<longrightarrow> t' = t) \<and>
        (\<forall>(j, a, st)\<in>set (starts (schedule (Request h a) NORMAL 0
          (s\<lparr>users := users s @ [h], put_queue := rest\<rparr>))). j = i \<longrightarrow> st = t)"
      by (auto simp: schedule_def)
  qed
qed

lemma immediate_ok_arrive:
  assumes "immediate_ok P s" "immediate_event_ok P s (Initialize_customer i)"
  shows "immediate_ok P (service_customer_arrive P i s)"
proof -
  let ?s = "s\<lparr>put_queue := put_queue s @ [(i, now s)],
         arrivals := arrivals s @ [(i, now s, length (users s), length (put_queue s))]\<rparr>"
  from assms(2) have ev1: "\<And>j t u w. (j, t, u, w) \<in> set (arrivals s) \<Longrightarrow> j < i"
    and ev2: "\<And>j a. (j, a) \<in> set (put_queue s) \<Longrightarrow> j < i"
    and ev3: "\<And>t p e j a. (t, p, e, Request j a) \<in> set (queue s) \<Longrightarrow> j < i"
    and ev4: "\<And>j a st. (j, a, st) \<in> set (starts s) \<Longrightarrow> j < i"
    by fastforce+
  have kept: "(\<forall>(j, a)\<in>set (put_queue s). j \<noteq> k) \<and>
      (\<forall>t' p e a. (t', p, e, Request k a) \<in> set (queue s) \<longrightarrow> t' = t) \<and>
      (\<forall>(j, a, st)\<in>set (starts s). j = k \<longrightarrow> st = t) \<and> k \<noteq> i"
    if "(k, t, u, w) \<in> set (arrivals s)" "slot_free P u w" for k t u w
  proof -
    from ev1[OF that(1)] have "k \<noteq> i" by simp
    moreover from assms(1) that have "(\<forall>(j, a)\<in>set (put_queue s). j \<noteq> k) \<and>
      (\<forall>t' p e a. (t', p, e, Request k a) \<in> set (queue s) \<longrightarrow> t' = t) \<and>
      (\<forall>(j, a, st)\<in>set (starts s). j = k \<longrightarrow> st = t)"
      unfolding immediate_ok_def by fast
    ultimately show ?thesis by simp
  qed
  have fresh1: "(t', p, e, Request i a) \<notin> set (queue s)" for t' p e a
    using ev3[of t' p e i a] by auto
  have fresh2: "(i, a, st) \<notin> set (starts s)" for a st
    using ev4[of i a st] by auto
  show ?thesis
  proof (cases rule: trigger_put_cases[of P ?s])
    case idle
    then have full: "\<not> int (length (users s)) < num_cashiers P" by simp
    have "immediate_ok P ?s"
      unfolding immediate_ok_def
    proof (intro ballI, clarify)
      fix k t u w
      assume m: "(k, t, u, w) \<in> set (arrivals ?s)" and fr: "slot_free P u w"
      from m fr full have m': "(k, t, u, w) \<in> set (arrivals s)"
        by (auto simp: slot_free_def)
      from kept[OF m' fr]
      show "(\<forall>(j, a)\<in>set (put_queue ?s). j \<noteq> k) \<and>
          (\<forall>t' p e a. (t', p, e, Request k a) \<in> set (queue ?s) \<longrightarrow> t' = t) \<and>
          (\<forall>(j, a, st)\<in>set (starts ?s). j = k \<longrightarrow> st = t)"
        by simp
    qed
    with idle(1) show ?thesis by (simp add: service_customer_arrive_eq)
  next
    case (grant h a rest)
    let ?g = "schedule (Request h a) NORMAL 0 (?s\<lparr>users := users ?s @ [h], put_queue := rest\<rparr>)"
    from grant(1) have pq: "put_queue s @ [(i, now s)] = (h, a) # rest" by simp
    then have "set (put_queue s @ [(i, now s)]) = set ((h, a) # rest)" by simp
    then have sub: "insert (h, a) (set rest) = insert (i, now s) (set (put_queue s))"
      by simp
    have fields: "queue ?g = queue s @ [(now s, NORMAL, eid s, Request h a)]"
      "put_queue ?g = rest" "starts ?g = starts s"
      "arrivals ?g = arrivals s @ [(i, now s, length (users s), length (put_queue s))]"
      by (simp_all add: schedule_def)
    have "immediate_ok P ?g"
      unfolding immediate_ok_def fields
    proof (intro ballI, clarify)
      fix k t u w
      assume m: "(k, t, u, w) \<in> set (arrivals s @ [(i, now s, length (users s), length (put_queue s))])"
        and fr: "slot_free P u w"
      from m consider (before) "(k, t, u, w) \<in> set (arrivals s)"
        | (now) "k = i" "t = now s" "w = length (put_queue s)" by auto
      then show "(\<forall>(j, a)\<in>set rest. j \<noteq> k) \<and>
          (\<forall>t' p e aa. (t', p, e, Request k aa) \<in> set (queue s @ [(now s, NORMAL, eid s, Request h a)])
             \<longrightarrow> t' = t) \<and>
          (\<forall>(j, a, st)\<in>set (starts s). j = k \<longrightarrow> st = t)"
      proof cases
        case before
        note k = kept[OF before fr]
        from k have neq: "\<And>j b. (j, b) \<in> insert (i, now s) (set (put_queue s)) \<Longrightarrow> j \<noteq> k"
          by auto
        from neq[of h a] sub have "h \<noteq> k" by auto
        moreover have "\<forall>(j, b)\<in>set rest. j \<noteq> k"
        proof (clarify)
          fix b assume "(k, b) \<in> set rest"
          then have "(k, b) \<in> insert (i, now s) (set (put_queue s))" using sub by blast
          from neq[OF this] show False by simp
        qed
        ultimately show ?thesis using k by auto
      next
        case now
        from now(3) fr have "put_queue s = []" by (simp add: slot_free_def)
        with pq have "h = i" "a = now s" "rest = []" by simp_all
        with now(1,2) fresh1 fresh2 show ?thesis by auto
      qed
    qed
    with grant(3) show ?thesis by (simp add: service_customer_arrive_eq)
  qed
qed

lemma immediate_ok_callbacks:
  assumes "immediate_ok P s" "immediate_event_ok P s ev"
  shows "immediate_ok P (callbacks R P ev s)"
proof (cases ev)
  case Initialize_generator
  show ?thesis unfolding Initialize_generator callbacks.simps
    by (rule immediate_ok_frame[OF assms(1)]) (simp_all add: customer_generator_frame)
next
  case Generator_timeout
  show ?thesis unfolding Generator_timeout callbacks.simps
    by (rule immediate_ok_frame[OF assms(1)]) (simp_all add: customer_generator_frame schedule_def)
next
  case (Service_timeout i a st d)
  show ?thesis unfolding Service_timeout callbacks.simps
    by (rule immediate_ok_frame[OF assms(1)]) (simp_all add: service_customer_finish_frame)
next
  case (Release i)
  with assms(1) show ?thesis by (simp add: immediate_ok_trigger_put)
next
  case (Initialize_customer i)
  with assms show ?thesis by (simp add: immediate_ok_arrive)
next
  case (Request i a)
  note f = service_customer_start_frame[where R = R and P = P and i = i and a = a and s = s]
  from assms(2) have ev: "\<And>t u w. (i, t, u, w) \<in> set (arrivals s) \<Longrightarrow> slot_free P u w \<Longrightarrow> now s = t"
    unfolding Request by fastforce
  have "immediate_ok P (service_customer_start R P i a s)"
    unfolding immediate_ok_def f
  proof (intro ballI, clarify)
    fix k t u w
    assume m: "(k, t, u, w) \<in> set (arrivals s)" and fr: "slot_free P u w"
    from assms(1) m fr have k: "(\<forall>(j, a)\<in>set (put_queue s). j \<noteq> k) \<and>
      (\<forall>t' p e a. (t', p, e, Request k a) \<in> set (queue s) \<longrightarrow> t' = t) \<and>
      (\<forall>(j, a, st)\<in>set (starts s). j = k \<longrightarrow> st = t)"
      unfolding immediate_ok_def by fast
    have "now s = t" if "i = k" using ev[of t u w] m fr that by simp
    with k show "(\<forall>(j, a)\<in>set (put_queue s). j \<noteq> k) \<and>
        (\<forall>t' p e a. (t', p, e, Request k a) \<in> set (queue s) \<longrightarrow> t' = t) \<and>
        (\<forall>(j, a, st)\<in>set (starts s @ [(i, a, now s)]). j = k \<longrightarrow> st = t)"
      by auto
  qed
  then show ?thesis by (simp add: Request)
qed (use assms(1) in simp_all)

lemma linked_ok_popped: "linked_ok s \<Longrightarrow> linked_ok (popped x s)"
  unfolding linked_ok_def popped_def by (simp del: ex_simps) (blast dest: in_remove1D)

lemma popped_linked_event_ok:
  assumes "linked_ok s" "x \<in> set (queue s)"
  shows "linked_event_ok (popped x s) (event_of x)"
proof -
  obtain t p e ev where x: "x = (t, p, e, ev)" by (cases x)
  show ?thesis
  proof (cases ev)
    case (Service_timeout i a st d)
    with assms x show ?thesis unfolding linked_ok_def by (simp add: event_of_def popped_def) blast
  qed (simp_all add: x event_of_def)
qed

lemma linked_ok_trigger_put: "linked_ok s \<Longrightarrow> linked_ok (trigger_put P s)"
  by (rule trigger_put_cases[of P s]) (auto simp: linked_ok_def schedule_def)

lemma linked_ok_callbacks:
  assumes "linked_ok s" "linked_event_ok s ev"
  shows "linked_ok (callbacks R P ev s)"
proof (cases ev)
  case (Initialize_customer i)
  from assms(1) have "linked_ok
      (s\<lparr>put_queue := put_queue s @ [(i, now s)],
         arrivals := arrivals s @ [(i, now s, length (users s), length (put_queue s))]\<rparr>)"
    by (simp add: linked_ok_def)
  then show ?thesis
    by (simp add: Initialize_customer service_customer_arrive_eq linked_ok_trigger_put)
next
  case (Release i)
  with assms(1) show ?thesis by (simp add: linked_ok_trigger_put)
next
  case (Service_timeout i a st d)
  with assms show ?thesis
    unfolding linked_ok_def by (auto simp: process_defs)
next
  case (Request i a)
  with assms(1) show ?thesis
    unfolding linked_ok_def by (auto simp: process_defs split: sum.split prod.split; blast)
next
  case Initialize_generator
  with assms(1) show ?thesis
    unfolding linked_ok_def by (auto simp: process_defs split: sum.split prod.split)
next
  case Generator_timeout
  with assms(1) show ?thesis
    unfolding linked_ok_def by (auto simp: process_defs split: sum.split prod.split)
qed (use assms(1) in simp_all)

lemma popped_immediate_event_ok:
  assumes "immediate_ok P s" "fifo_ok s" "arrivals_ok s" "x \<in> set (queue s)"
  shows "immediate_event_ok P (popped x s) (event_of x)"
proof -
  obtain t p e ev where x: "x = (t, p, e, ev)" by (cases x)
  show ?thesis
  proof (cases ev)
    case (Request i a)
    have "t = t'" if "(i, t', u, w) \<in> set (arrivals s)" "slot_free P u w" for t' u w
    proof -
      from assms(1) that have "\<forall>t'' p e a. (t'', p, e, Request i a) \<in> set (queue s) \<longrightarrow> t'' = t'"
        unfolding immediate_ok_def by fast
      with assms(4) x Request show ?thesis by blast
    qed
    then show ?thesis by (auto simp: x Request event_of_def popped_def)
  next
    case (Initialize_customer i)
    from assms(3,4) x Initialize_customer
    have a: "\<And>j t u w. (j, t, u, w) \<in> set (arrivals s) \<Longrightarrow> j < i"
      unfolding arrivals_ok_def by fast
    from assms(2) have so: "starts_ok s" and ro: "requests_ok s" and wo: "waiting_ok s"
      by (simp_all add: fifo_ok_def)
    have 1: "j < i" if "(j, b) \<in> set (put_queue s)" for j b
    proof -
      from wo that obtain u w where "(j, b, u, w) \<in> set (arrivals s)"
        unfolding waiting_ok_def by fast
      then show ?thesis by (rule a)
    qed
    have 2: "j < i" if "(t', p', e', Request j b) \<in> set (queue s)" for t' p' e' j b
    proof -
      from ro that obtain u w where "(j, b, u, w) \<in> set (arrivals s)"
        unfolding requests_ok_def by fast
      then show ?thesis by (rule a)
    qed
    have 3: "j < i" if "(j, b, st) \<in> set (starts s)" for j b st
    proof -
      from so that obtain u w where "(j, b, u, w) \<in> set (arrivals s)"
        unfolding starts_ok_def by fast
      then show ?thesis by (rule a)
    qed
    from a 1 2 3 show ?thesis
      by (auto simp: x Initialize_customer event_of_def popped_def dest: in_remove1D)
  qed (simp_all add: x event_of_def)
qed

lemma service_ok_start: "0 < sim_time P \<Longrightarrow> service_ok P (start_env R P)"
  using history_ok_start[of P R]
  by (auto simp: service_ok_def eids_ok_def fifo_ok_def starts_ok_def requests_ok_def
      waiting_ok_def immediate_ok_def linked_ok_def start_env_def schedule_def init_env_def
      Let_def)

lemma service_ok_Continue:
  assumes "service_ok P s" "step R P s = Continue s'"
  shows "service_ok P s'"
proof -
  from assms(2) obtain x where x: "smallest x s" "event_of x \<noteq> Until"
    "s' = callbacks R P (event_of x) (popped x s)"
    by (rule step_Continue)
  from assms(1) have h: "history_ok P s" and e: "eids_ok s" and f: "fifo_ok s"
    and i: "immediate_ok P s" and l: "linked_ok s"
    by (simp_all add: service_ok_def)
  from h have b: "base_ok P s" and a: "arrivals_ok s"
    by (simp_all add: history_ok_def engine_ok_def)
  from x(1) have m: "x \<in> set (queue s)" by (simp add: smallest_def)
  have le: "now s \<le> fst x" using b x(1,2) by (rule pop_time(1))
  have 1: "history_ok P s'" using h assms(2) by (rule history_ok_Continue)
  have 2: "eids_ok s'" unfolding x(3) using eids_ok_popped[OF e] by (rule eids_ok_callbacks)
  from f have "fifo_ok (popped x s)"
    using starts_ok_popped[OF _ le] requests_ok_popped[OF _ x(1) le] waiting_ok_popped[of s x]
    by (simp add: fifo_ok_def)
  moreover from eids_ok_popped[OF e, of x]
  have "\<forall>(t, p, e, ev)\<in>set (queue (popped x s)). e < eid (popped x s)"
    by (simp add: eids_ok_def)
  moreover note popped_fifo_event_ok[OF b e f a x(1)]
  ultimately have 3: "fifo_ok s'" unfolding x(3) by (rule fifo_ok_callbacks)
  have 4: "immediate_ok P s'" unfolding x(3)
    using immediate_ok_popped[OF i] popped_immediate_event_ok[OF i f a m]
    by (rule immediate_ok_callbacks)
  have 5: "linked_ok s'" unfolding x(3)
    using linked_ok_popped[OF l] popped_linked_event_ok[OF l m]
    by (rule linked_ok_callbacks)
  from 1 2 3 4 5 show ?thesis by (simp add: service_ok_def)
qed

lemma run_engine_service:
  assumes "run_engine R P g0 = Some (Inr s)"
  obtains s0 x where "service_ok P s0" and "s = popped x s0"
proof -
  from run_engine_Inr[OF assms] have t: "0 < sim_time P"
    and run: "run_loop R P (start_env R P) = Some (Inr s)" by simp_all
  from run_loop_stops[of R P "start_env R P" s "service_ok P", OF run service_ok_start[OF t]]
    service_ok_Continue
  obtain s0 where s0: "service_ok P s0" "step R P s0 = Stopped s" by blast
  from s0(2) obtain x where "s = popped x s0" by (rule step_Stopped)
  with s0(1) that show thesis by blast
qed

lemma sorted_wrt_same_index:
  assumes "sorted_wrt (\<lambda>x y. fst x < fst y \<and> Q x y) xs"
    and "x \<in> set xs" "y \<in> set xs" "fst x = (fst y :: nat)"
  shows "x = y"
  using assms by (induction xs) auto

subsection \<open>The engine returns\<close>

lemma potential_popped:
  assumes "x \<in> set (queue s)"
  shows "potential P s = weight P x + potential P (popped x s)"
  using sum_list_map_remove1[OF assms, of "weight P"]
  by (simp add: potential_def popped_def)

lemma potential_trigger_put: "potential P (trigger_put P s) \<le> potential P s"
  by (rule trigger_put_cases[of P s]) (auto simp: potential_def schedule_def)

lemma potential_customer_generator:
  assumes "randint_in_range R" "m \<le> min_interarrival P" "0 \<le> m"
  shows "potential P (customer_generator R P s) \<le>
         potential P s + 7 * nat (sim_time P - (now s + m))"
proof (cases "randint R (rng s) (min_interarrival P) (max_interarrival P)")
  case (Inl e)
  then show ?thesis
    by (simp add: potential_def customer_generator_def process_failed_def schedule_def Let_def)
next
  case (Inr dg)
  obtain d g where dg: "dg = (d, g)" by (cases dg)
  from randint_Inr[OF assms(1) Inr[unfolded dg]] assms(2) have "m \<le> d" by simp
  then have "nat (sim_time P - (now s + d)) \<le> nat (sim_time P - (now s + m))" by simp
  then show ?thesis
    by (simp add: Inr dg potential_def customer_generator_def process_failed_def timeout_def
        schedule_def Let_def)
qed

lemma potential_callbacks:
  assumes "randint_in_range R" "1 \<le> min_interarrival P"
    and "0 \<le> now s" "now s < sim_time P"
    and "ev \<noteq> Until" "\<And>err. ev \<noteq> Process_failed err"
  shows "potential P (callbacks R P ev s) < weight P (now s, p, e, ev) + potential P s"
proof (cases ev)
  case Initialize_generator
  have "potential P (customer_generator R P (s\<lparr>gen_i := 0\<rparr>)) \<le>
      potential P (s\<lparr>gen_i := 0\<rparr>) + 7 * nat (sim_time P - (now (s\<lparr>gen_i := 0\<rparr>) + 0))"
    using assms(1,2) by (intro potential_customer_generator) simp_all
  moreover from assms(3) have "nat (sim_time P - now s) \<le> nat (sim_time P)" by simp
  ultimately show ?thesis by (simp add: Initialize_generator potential_def)
next
  case Generator_timeout
  let ?s = "schedule (Initialize_customer (gen_i s)) URGENT 0 s"
  have "potential P (customer_generator R P ?s) \<le>
      potential P ?s + 7 * nat (sim_time P - (now ?s + 1))"
    using assms(1,2) by (intro potential_customer_generator) simp_all
  moreover have "potential P ?s = potential P s + 6" by (simp add: potential_def schedule_def)
  moreover have "now ?s = now s" by (simp add: schedule_def)
  moreover from assms(4) have "7 * nat (sim_time P - (now s + 1)) + 6 < 7 * nat (sim_time P - now s)"
    by simp
  ultimately show ?thesis by (simp add: Generator_timeout)
next
  case (Initialize_customer i)
  let ?s = "s\<lparr>put_queue := put_queue s @ [(i, now s)],
         arrivals := arrivals s @ [(i, now s, length (users s), length (put_queue s))]\<rparr>"
  have "potential P (trigger_put P ?s) \<le> potential P ?s" by (rule potential_trigger_put)
  moreover have "potential P ?s = potential P s + 5" by (simp add: potential_def)
  ultimately show ?thesis by (simp add: Initialize_customer service_customer_arrive_eq)
next
  case (Request i a)
  then show ?thesis
    by (auto simp: potential_def process_defs split: sum.split prod.split)
next
  case (Service_timeout i a st d)
  then show ?thesis by (simp add: potential_def process_defs)
next
  case (Release i)
  with potential_trigger_put[of P s] show ?thesis by simp
next
  case Process_end
  then show ?thesis by simp
next
  case Until
  with assms(5) show ?thesis by simp
next
  case (Process_failed err)
  with assms(6)[of err] show ?thesis by simp
qed

lemma step_Continue_event:
  assumes "step R P s = Continue s'"
  obtains t p e ev where "smallest (t, p, e, ev) s" and "ev \<noteq> Until"
    and "\<forall>err. ev \<noteq> Process_failed err"
    and "s' = callbacks R P ev (popped (t, p, e, ev) s)"
proof -
  let ?x = "arg_min_list key (queue s)"
  obtain t p e ev where x: "?x = (t, p, e, ev)" by (cases ?x)
  from assms have ne: "queue s \<noteq> []" by (auto simp: step_def)
  then have 1: "smallest (t, p, e, ev) s"
    unfolding x[symmetric] by (simp add: smallest_def arg_min_key_in arg_min_key_le)
  from assms ne x have 2: "ev \<noteq> Until" "\<forall>err. ev \<noteq> Process_failed err"
    by (auto simp: step_def Let_def event_of_def split: event.splits)
  from assms ne x have 3: "s' = callbacks R P ev (popped (t, p, e, ev) s)"
    by (auto simp: step_def Let_def event_of_def split: event.splits)
  from 1 2 3 show thesis by (rule that)
qed

lemma potential_Continue:
  assumes "randint_in_range R" "1 \<le> min_interarrival P"
    and "base_ok P s" "step R P s = Continue s'"
  shows "potential P s' < potential P s"
proof -
  from assms(4) obtain t p e ev where x: "smallest (t, p, e, ev) s" "ev \<noteq> Until"
    "\<forall>err. ev \<noteq> Process_failed err" "s' = callbacks R P ev (popped (t, p, e, ev) s)"
    by (rule step_Continue_event)
  from x(3) have nf: "\<And>err. ev \<noteq> Process_failed err" by simp
  let ?s = "popped (t, p, e, ev) s"
  from x(2) have u: "event_of (t, p, e, ev) \<noteq> Until" by (simp add: event_of_def)
  from pop_time[OF assms(3) x(1) u] assms(3)
  have "0 \<le> now ?s" "now ?s < sim_time P"
    by (simp_all add: popped_def base_ok_def time_ok_def)
  from potential_callbacks[OF assms(1,2) this x(2) nf, of p e]
  have "potential P s' < weight P (t, p, e, ev) + potential P ?s"
    by (simp add: x(4) popped_def)
  moreover from x(1) have "(t, p, e, ev) \<in> set (queue s)" by (simp add: smallest_def)
  then have "potential P s = weight P (t, p, e, ev) + potential P ?s" by (rule potential_popped)
  ultimately show ?thesis by simp
qed

lemma run_loop_returns:
  assumes "randint_in_range R" "1 \<le> min_interarrival P" "base_ok P s"
  shows "\<exists>r. run_loop R P s = Some r"
  using assms(3)
proof (induction "potential P s" arbitrary: s rule: less_induct)
  case less
  show ?case
  proof (cases "step R P s")
    case (Continue s')
    from potential_Continue[OF assms(1,2) less.prems Continue]
      base_ok_Continue[OF less.prems Continue]
    have "\<exists>r. run_loop R P s' = Some r" by (rule less.hyps)
    with Continue show ?thesis by (subst run_loop.simps) simp
  next
    case (Stopped s')
    then show ?thesis by (subst run_loop.simps) simp
  next
    case (Raised err)
    then show ?thesis by (subst run_loop.simps) simp
  qed
qed

text \<open>
  With gaps of at least one minute, and \<^verbatim>\<open>randint\<close> returning a value of its range,
  \<^verbatim>\<open>run_simulation\<close> returns: with the records, or with the exception of an input it
  rejects.
\<close>

theorem run_simulation_returns:
  assumes "randint_in_range R" "1 \<le> min_interarrival P"
  shows "\<exists>r. run_simulation R P g0 = Some r"
proof (cases "0 < num_cashiers P \<and> 0 < sim_time P")
  case True
  then have "run_engine R P g0 = run_loop R P (start_env R P)"
    by (simp add: run_engine_def start_env_def Let_def schedule_def init_env_def)
  moreover from True have "base_ok P (start_env R P)" by (simp add: base_ok_start)
  from run_loop_returns[OF assms this] obtain r where "run_loop R P (start_env R P) = Some r" ..
  ultimately show ?thesis by (auto simp: run_simulation_def split: sum.split)
next
  case False
  then show ?thesis
    by (auto simp: run_simulation_def run_engine_def Let_def schedule_def init_env_def)
qed

subsection \<open>The engine on valid parameters\<close>

lemma nofail_ok_popped: "nofail_ok s \<Longrightarrow> nofail_ok (popped x s)"
  unfolding nofail_ok_def popped_def by (fastforce dest: in_remove1D)

lemma nofail_ok_trigger_put: "nofail_ok s \<Longrightarrow> nofail_ok (trigger_put P s)"
  by (rule trigger_put_cases[of P s]) (auto simp: nofail_ok_def schedule_def)

lemma nofail_ok_customer_generator:
  assumes "randint_in_range R" "valid_params P" "nofail_ok s"
  shows "nofail_ok (customer_generator R P s)"
proof (cases "randint R (rng s) (min_interarrival P) (max_interarrival P)")
  case (Inl e)
  with assms(2) show ?thesis by (simp add: randint_def valid_params_def)
next
  case (Inr dg)
  obtain d g where dg: "dg = (d, g)" by (cases dg)
  from randint_Inr[OF assms(1) Inr[unfolded dg]] assms(2) have "0 \<le> d"
    by (simp add: valid_params_def)
  with assms(3) show ?thesis
    by (auto simp: Inr dg nofail_ok_def customer_generator_def timeout_def schedule_def Let_def)
qed

lemma nofail_ok_service_customer_start:
  assumes "randint_in_range R" "valid_params P" "nofail_ok s"
  shows "nofail_ok (service_customer_start R P i a s)"
proof (cases "randint R (rng s) (min_service P) (max_service P)")
  case (Inl e)
  with assms(2) show ?thesis by (simp add: randint_def valid_params_def)
next
  case (Inr dg)
  obtain d g where dg: "dg = (d, g)" by (cases dg)
  from randint_Inr[OF assms(1) Inr[unfolded dg]] assms(2) have "0 \<le> d"
    by (simp add: valid_params_def)
  with assms(3) show ?thesis
    by (auto simp: Inr dg nofail_ok_def service_customer_start_def timeout_def schedule_def
        Let_def)
qed

lemma nofail_ok_callbacks:
  assumes "randint_in_range R" "valid_params P" "nofail_ok s"
  shows "nofail_ok (callbacks R P ev s)"
proof (cases ev)
  case Initialize_generator
  from assms(3) have "nofail_ok (s\<lparr>gen_i := 0\<rparr>)" by (simp add: nofail_ok_def)
  with assms(1,2) show ?thesis
    by (simp add: Initialize_generator nofail_ok_customer_generator)
next
  case Generator_timeout
  from assms(3) have "nofail_ok (schedule (Initialize_customer (gen_i s)) URGENT 0 s)"
    by (auto simp: nofail_ok_def schedule_def)
  with assms(1,2) show ?thesis
    by (simp add: Generator_timeout nofail_ok_customer_generator)
next
  case (Initialize_customer i)
  from assms(3) have "nofail_ok
      (s\<lparr>put_queue := put_queue s @ [(i, now s)],
         arrivals := arrivals s @ [(i, now s, length (users s), length (put_queue s))]\<rparr>)"
    by (simp add: nofail_ok_def)
  then show ?thesis
    by (simp add: Initialize_customer service_customer_arrive_eq nofail_ok_trigger_put)
next
  case (Request i a)
  with assms show ?thesis by (simp add: nofail_ok_service_customer_start)
next
  case (Service_timeout i a st d)
  with assms(3) show ?thesis by (auto simp: nofail_ok_def process_defs)
next
  case (Release i)
  with assms(3) show ?thesis by (simp add: nofail_ok_trigger_put)
qed (use assms(3) in simp_all)

lemma run_loop_ok:
  assumes "randint_in_range R" "valid_params P" "base_ok P s" "nofail_ok s"
  shows "\<exists>s'. run_loop R P s = Some (Inr s')"
  using assms(3,4)
proof (induction "potential P s" arbitrary: s rule: less_induct)
  case less
  from assms(2) have gap: "1 \<le> min_interarrival P" by (simp add: valid_params_def)
  show ?case
  proof (cases "step R P s")
    case (Continue s')
    from Continue obtain x where x: "smallest x s" "event_of x \<noteq> Until"
      "s' = callbacks R P (event_of x) (popped x s)"
      by (rule step_Continue)
    have "nofail_ok s'" unfolding x(3)
      using assms(1,2) nofail_ok_popped[OF less.prems(2)] by (rule nofail_ok_callbacks)
    with potential_Continue[OF assms(1) gap less.prems(1) Continue]
      base_ok_Continue[OF less.prems(1) Continue]
    have "\<exists>r. run_loop R P s' = Some (Inr r)" by (intro less.hyps)
    with Continue show ?thesis by (subst run_loop.simps) simp
  next
    case (Stopped s')
    then show ?thesis by (subst run_loop.simps) simp
  next
    case (Raised err)
    from less.prems(1) obtain e' where u: "(sim_time P, URGENT, e', Until) \<in> set (queue s)"
      by (auto simp: base_ok_def until_ok_def)
    then have ne: "queue s \<noteq> []" by auto
    let ?x = "arg_min_list key (queue s)"
    from ne have "?x \<in> set (queue s)" by (rule arg_min_key_in)
    with less.prems(2) have "\<And>err. event_of ?x \<noteq> Process_failed err"
      by (cases ?x) (auto simp: nofail_ok_def event_of_def)
    with Raised ne show ?thesis
      by (auto simp: step_def Let_def split: event.splits)
  qed
qed

lemma run_simulation_ok:
  assumes "randint_in_range R" "valid_params P"
  shows "\<exists>rs g. run_simulation R P g0 = Some (Inr (rs, g))"
proof -
  from assms(2) have pos: "0 < num_cashiers P" "0 < sim_time P"
    by (simp_all add: valid_params_def)
  then have "run_engine R P g0 = run_loop R P (start_env R P)"
    by (simp add: run_engine_def start_env_def Let_def schedule_def init_env_def)
  moreover have "base_ok P (start_env R P)" using pos(2) by (rule base_ok_start)
  moreover have "nofail_ok (start_env R P)"
    by (simp add: nofail_ok_def start_env_def schedule_def init_env_def Let_def)
  ultimately obtain s where "run_engine R P g0 = Some (Inr s)"
    using run_loop_ok[OF assms] by metis
  then show ?thesis by (simp add: run_simulation_def)
qed

subsection \<open>An empty result\<close>

lemma number_input_Inr:
  "number_input lo hi d entry = Inr v \<Longrightarrow> lo \<le> v \<and> v \<le> hi"
  by (auto simp: number_input_def split: if_splits option.splits)

lemma sidebar_valid:
  assumes "sidebar w = Inr (pa, pb)"
  shows "valid_params pa \<and> valid_params pb"
  using assms unfolding sidebar_def
  by (auto split: sum.splits dest!: number_input_Inr simp: valid_params_def)

text \<open>
  C9 (empty result). Whenever the sidebar accepts its values and the button is
  pressed, both runs of the engine return normally, with their records (the engine
  raises nothing, also when it has no record to return), and \<^verbatim>\<open>main\<close> returns
  normally too: it shows the error box that asks for other parameters exactly when
  one of the two frames is empty, and the report otherwise. (\<^verbatim>\<open>randint\<close> is taken to
  return a value of its range.) That a run can return no record is shown on
  \<open>long_inputs\<close>.
\<close>

theorem empty_result_reported:
  assumes "randint_in_range R" and "sidebar w = Inr (scenario_a, scenario_b)"
    and "run_button w"
  shows "\<exists>df_a g1 df_b g2.
           run_simulation R scenario_a g0 = Some (Inr (df_a, g1)) \<and>
           run_simulation R scenario_b g1 = Some (Inr (df_b, g2)) \<and>
           main R w g0 =
             Some (Inr (if df_a = [] \<or> df_b = []
                        then Error_box
                          ''Data simulasi kosong. Silakan coba lagi dengan parameter berbeda.''
                        else Report df_a df_b, g2))"
proof -
  from sidebar_valid[OF assms(2)] have va: "valid_params scenario_a"
    and vb: "valid_params scenario_b" by simp_all
  from run_simulation_ok[OF assms(1) va] obtain df_a g1 where
    a: "run_simulation R scenario_a g0 = Some (Inr (df_a, g1))" by blast
  from run_simulation_ok[OF assms(1) vb] obtain df_b g2 where
    b: "run_simulation R scenario_b g1 = Some (Inr (df_b, g2))" by blast
  from assms(2,3) a b have "main R w g0 =
      Some (Inr (if df_a = [] \<or> df_b = []
                 then Error_box
                   ''Data simulasi kosong. Silakan coba lagi dengan parameter berbeda.''
                 else Report df_a df_b, g2))"
    by (simp add: main_def)
  with a b show ?thesis by blast
qed

lemma long_sidebar: "sidebar long_inputs = Inr (long_scenario_a, long_scenario_b)"
  by code_simp

lemma long_simulation_a:
  "run_simulation sample_random long_scenario_a 0 = Some (Inr ([], 1091320152))"
  by code_simp

lemma long_simulation_b:
  "run_simulation sample_random long_scenario_b 1091320152 = Some (Inr ([], 1091320152))"
  by code_simp

theorem empty_result_reported_witness:
  "randint_in_range sample_random \<and>
   sidebar long_inputs = Inr (long_scenario_a, long_scenario_b) \<and>
   run_button long_inputs \<and>
   run_simulation sample_random long_scenario_a 0 = Some (Inr ([], 1091320152)) \<and>
   run_simulation sample_random long_scenario_b 1091320152 = Some (Inr ([], 1091320152)) \<and>
   main sample_random long_inputs 0 =
     Some (Inr (Error_box ''Data simulasi kosong. Silakan coba lagi dengan parameter berbeda.'',
       1091320152))"
proof -
  have b: "run_button long_inputs" by (simp add: long_inputs_def)
  from empty_result_reported[OF sample_random_in_range long_sidebar b, of 0]
  show ?thesis
    using sample_random_in_range long_sidebar b long_simulation_a long_simulation_b
    by auto
qed

text \<open>
  With the sidebar at its defaults but for a horizon of 100, both frames have rows and
  the page shows the report.
\<close>

lemma default_inputs_report:
  "(case main sample_random
      \<lparr>sim_time_in = Some 100, min_interarrival_in = None, max_interarrival_in = None,
       min_service_in = None, max_service_in = None, num_cashiers_a_in = None,
       num_cashiers_b_in = None, random_seed_in = None, run_button = True\<rparr> 0 of
      Some (Inr (Report df_a df_b, g)) \<Rightarrow> (length df_a, length df_b)
    | _ \<Rightarrow> (0, 0)) = (15, 31)"
  by code_simp

lemma sidebar_rejects_default_below_min:
  "main sample_random (long_inputs\<lparr>min_interarrival_in := Some 60\<rparr>) 0 =
     Some (Inl StreamlitValueBelowMinError)"
  by code_simp

subsection \<open>The states of the loop\<close>

lemma run_steps_invariant:
  assumes "run_steps R P n s = Some s'" and "I s"
    and "\<And>s s'. I s \<Longrightarrow> step R P s = Continue s' \<Longrightarrow> I s'"
  shows "I s'"
  using assms(1,2)
proof (induction n arbitrary: s)
  case 0
  then show ?case by simp
next
  case (Suc n)
  from Suc.prems(1) obtain s1 where s1: "step R P s = Continue s1" "run_steps R P n s1 = Some s'"
    by (auto split: step_result.splits)
  from assms(3)[OF Suc.prems(2) s1(1)] s1(2) show ?case by (rule Suc.IH[rotated])
qed

lemma run_steps_Suc:
  "run_steps R P (Suc n) s =
     (case run_steps R P n s of
        None \<Rightarrow> None
      | Some s1 \<Rightarrow>
          (case step R P s1 of Continue s' \<Rightarrow> Some s' | Stopped s' \<Rightarrow> None | Raised e \<Rightarrow> None))"
proof (induction n arbitrary: s)
  case 0
  show ?case by (simp split: step_result.split)
next
  case (Suc n)
  show ?case
  proof (cases "step R P s")
    case (Continue s1)
    with Suc.IH[of s1] show ?thesis by simp
  qed simp_all
qed

text \<open>A run that returns stopped at a state of the loop.\<close>

lemma run_engine_loop_state:
  assumes "run_engine R P g0 = Some (Inr s')"
  shows "\<exists>n s. loop_state R P n = Some s \<and> step R P s = Stopped s'"
proof -
  from run_engine_Inr[OF assms] have c: "0 < num_cashiers P" "0 < sim_time P"
    and run: "run_loop R P (start_env R P) = Some (Inr s')" by simp_all
  define I where "I = (\<lambda>s. \<exists>n. loop_state R P n = Some s)"
  from c have "loop_state R P 0 = Some (start_env R P)" by (simp add: loop_state_def)
  then have start: "I (start_env R P)" unfolding I_def by blast
  have pres: "I s1" if "I s" "step R P s = Continue s1" for s s1
  proof -
    from that(1) obtain n where "loop_state R P n = Some s" unfolding I_def by blast
    with c that(2) have "loop_state R P (Suc n) = Some s1"
      unfolding loop_state_def run_steps_Suc by simp
    then show ?thesis unfolding I_def by blast
  qed
  from run start pres have "\<exists>s0. I s0 \<and> step R P s0 = Stopped s'" by (rule run_loop_stops)
  then show ?thesis unfolding I_def by blast
qed

subsection \<open>Slots\<close>

lemma mset_map_remove1:
  "x \<in> set xs \<Longrightarrow> mset (map f xs) = add_mset (f x) (mset (map f (remove1 x xs)))"
  by (induction xs) auto

lemma hold_index_popped:
  assumes "x \<in> set (queue s)"
  shows "hold_index s =
     hold_index (popped x s) +
       (if holding (event_of x) then {#customer_of (event_of x)#} else {#})"
proof (cases "holding (event_of x)")
  case True
  with assms have m: "x \<in> set (holders s)" by (simp add: holders_def)
  have "holders (popped x s) = remove1 x (holders s)"
    by (simp add: holders_def popped_def filter_remove1)
  with mset_map_remove1[OF m, of "\<lambda>x. customer_of (event_of x)"] True
  show ?thesis by (simp add: hold_index_def)
next
  case False
  then have "x \<notin> set (holders s)" by (simp add: holders_def)
  then have "holders (popped x s) = holders s"
    by (simp add: holders_def popped_def filter_remove1 remove1_idem)
  with False show ?thesis by (simp add: hold_index_def)
qed

lemma hold_index_schedule:
  "hold_index (schedule ev p d s) =
     hold_index s + (if holding ev then {#customer_of ev#} else {#})"
  by (simp add: hold_index_def holders_def schedule_def event_of_def)

lemma hold_index_fields:
  "hold_index (s\<lparr>users := us\<rparr>) = hold_index s"
  "hold_index (s\<lparr>put_queue := pq\<rparr>) = hold_index s"
  "hold_index (s\<lparr>rng := g\<rparr>) = hold_index s"
  "hold_index (s\<lparr>gen_i := k\<rparr>) = hold_index s"
  "hold_index (s\<lparr>records := rs\<rparr>) = hold_index s"
  "hold_index (s\<lparr>arrivals := ar\<rparr>) = hold_index s"
  "hold_index (s\<lparr>starts := st\<rparr>) = hold_index s"
  by (simp_all add: hold_index_def holders_def)

lemma schedule_fields:
  "users (schedule ev p d s) = users s"
  "put_queue (schedule ev p d s) = put_queue s"
  "arrivals (schedule ev p d s) = arrivals s"
  "starts (schedule ev p d s) = starts s"
  "records (schedule ev p d s) = records s"
  "now (schedule ev p d s) = now s"
  by (simp_all add: schedule_def)

lemma slots_ok_trigger_put:
  assumes "slots_ok P s"
  shows "slots_ok P (trigger_put P s)"
proof (cases rule: trigger_put_cases[of P s])
  case idle
  with assms show ?thesis by simp
next
  case (grant i a rest)
  with assms show ?thesis
    by (simp add: slots_ok_def hold_index_schedule hold_index_fields schedule_fields)
qed

lemma slots_ok_callbacks:
  assumes "int (length (users s)) \<le> num_cashiers P"
    and "mset (users s) =
           hold_index s + (if holding ev then {#customer_of ev#} else {#})"
  shows "slots_ok P (callbacks R P ev s)"
proof (cases ev)
  case (Initialize_customer i)
  from assms have "slots_ok P
      (s\<lparr>put_queue := put_queue s @ [(i, now s)],
         arrivals := arrivals s @ [(i, now s, length (users s), length (put_queue s))]\<rparr>)"
    by (simp add: slots_ok_def hold_index_fields Initialize_customer)
  then show ?thesis
    by (simp add: Initialize_customer service_customer_arrive_eq slots_ok_trigger_put)
next
  case (Release i)
  from assms have "slots_ok P s" by (simp add: slots_ok_def Release)
  then show ?thesis by (simp add: Release slots_ok_trigger_put)
next
  case (Request i a)
  with assms show ?thesis
    by (auto simp: slots_ok_def hold_index_def holders_def event_of_def process_defs
          length_remove1 split: sum.split prod.split)
next
  case (Service_timeout i a st d)
  with assms show ?thesis
    by (auto simp: slots_ok_def hold_index_def holders_def event_of_def process_defs
          length_remove1)
next
  case Initialize_generator
  with assms show ?thesis
    by (auto simp: slots_ok_def hold_index_def holders_def event_of_def process_defs
          split: sum.split prod.split)
next
  case Generator_timeout
  with assms show ?thesis
    by (auto simp: slots_ok_def hold_index_def holders_def event_of_def process_defs
          split: sum.split prod.split)
qed (use assms in \<open>simp_all add: slots_ok_def\<close>)

lemma slots_ok_step:
  assumes "slots_ok P s" "x \<in> set (queue s)"
  shows "slots_ok P (callbacks R P (event_of x) (popped x s))"
proof (rule slots_ok_callbacks)
  from assms(1) show "int (length (users (popped x s))) \<le> num_cashiers P"
    by (simp add: slots_ok_def popped_def)
  from assms(1) hold_index_popped[OF assms(2)]
  show "mset (users (popped x s)) =
      hold_index (popped x s) +
        (if holding (event_of x) then {#customer_of (event_of x)#} else {#})"
    by (simp add: slots_ok_def popped_def)
qed

subsection \<open>No idle slot while a customer waits\<close>

lemma releases_popped:
  assumes "x \<in> set (queue s)"
  shows "length (releases s) =
     length (releases (popped x s)) + (if release_event (event_of x) then 1 else 0)"
proof (cases "release_event (event_of x)")
  case True
  with assms have m: "x \<in> set (releases s)" by (simp add: releases_def)
  then have "0 < length (releases s)" by (cases "releases s") auto
  moreover have "releases (popped x s) = remove1 x (releases s)"
    by (simp add: releases_def popped_def filter_remove1)
  ultimately show ?thesis using m True by (simp add: length_remove1)
next
  case False
  then have "x \<notin> set (releases s)" by (simp add: releases_def)
  then have "releases (popped x s) = releases s"
    by (simp add: releases_def popped_def filter_remove1 remove1_idem)
  with False show ?thesis by simp
qed

lemma release_due_popped:
  assumes "\<forall>y\<in>set (queue s). release_event (event_of y) \<longrightarrow> fst y = now s"
    and "smallest x s" "now s \<le> fst x"
  shows "\<forall>y\<in>set (queue (popped x s)). release_event (event_of y) \<longrightarrow> fst y = now (popped x s)"
proof (intro ballI impI)
  fix y
  assume "y \<in> set (queue (popped x s))" and r: "release_event (event_of y)"
  then have m: "y \<in> set (queue s)" by (auto simp: popped_def dest: in_remove1D)
  with assms(1) r have "fst y = now s" by blast
  moreover from assms(2) m have "fst x \<le> fst y" by (auto simp: smallest_def dest!: key_le_fst)
  ultimately show "fst y = now (popped x s)" using assms(3) by (simp add: popped_def)
qed

lemma conserve_ok_trigger_put:
  assumes "\<forall>y\<in>set (queue s). release_event (event_of y) \<longrightarrow> fst y = now s"
    and "1 < length (put_queue s) \<longrightarrow>
           num_cashiers P - int (length (users s)) - 1 \<le> int (length (releases s))"
  shows "conserve_ok P (trigger_put P s)"
proof (cases rule: trigger_put_cases[of P s])
  case idle
  from idle(2) have "put_queue s \<noteq> [] \<longrightarrow>
      num_cashiers P - int (length (users s)) \<le> int (length (releases s))"
    by auto
  with assms(1) idle(1) show ?thesis by (simp add: conserve_ok_def)
next
  case (grant i a rest)
  from assms(2) grant(1) have "rest \<noteq> [] \<longrightarrow>
      num_cashiers P - int (length (users s)) - 1 \<le> int (length (releases s))"
    by (cases rest) auto
  with assms(1) show ?thesis
    unfolding grant(3) conserve_ok_def
    by (auto simp: schedule_def releases_def event_of_def)
qed

lemma conserve_ok_callbacks:
  assumes "\<forall>y\<in>set (queue s). release_event (event_of y) \<longrightarrow> fst y = now s"
    and "put_queue s \<noteq> [] \<longrightarrow>
           num_cashiers P - int (length (users s)) \<le>
             int (length (releases s)) + (if release_event ev then 1 else 0)"
  shows "conserve_ok P (callbacks R P ev s)"
proof (cases ev)
  case (Initialize_customer i)
  let ?s = "s\<lparr>put_queue := put_queue s @ [(i, now s)],
         arrivals := arrivals s @ [(i, now s, length (users s), length (put_queue s))]\<rparr>"
  from assms(1) have 1: "\<forall>y\<in>set (queue ?s). release_event (event_of y) \<longrightarrow> fst y = now ?s"
    by simp
  from assms(2) have 2: "1 < length (put_queue ?s) \<longrightarrow>
      num_cashiers P - int (length (users ?s)) - 1 \<le> int (length (releases ?s))"
    by (cases "put_queue s") (auto simp: Initialize_customer releases_def)
  from 1 2 have "conserve_ok P (trigger_put P ?s)" by (rule conserve_ok_trigger_put)
  then show ?thesis by (simp add: Initialize_customer service_customer_arrive_eq)
next
  case (Release i)
  from assms(2) have "1 < length (put_queue s) \<longrightarrow>
      num_cashiers P - int (length (users s)) - 1 \<le> int (length (releases s))"
    by (cases "put_queue s") (auto simp: Release)
  with assms(1) show ?thesis by (simp add: Release conserve_ok_trigger_put)
next
  case (Request i a)
  with assms show ?thesis
    by (auto simp: conserve_ok_def releases_def event_of_def process_defs length_remove1
          split: sum.split prod.split)
next
  case (Service_timeout i a st d)
  with assms show ?thesis
    by (auto simp: conserve_ok_def releases_def event_of_def process_defs length_remove1)
next
  case Initialize_generator
  with assms show ?thesis
    by (auto simp: conserve_ok_def releases_def event_of_def process_defs
          split: sum.split prod.split)
next
  case Generator_timeout
  with assms show ?thesis
    by (auto simp: conserve_ok_def releases_def event_of_def process_defs
          split: sum.split prod.split)
qed (use assms in \<open>simp_all add: conserve_ok_def\<close>)

lemma conserve_ok_step:
  assumes "conserve_ok P s" "smallest x s" "now s \<le> fst x"
  shows "conserve_ok P (callbacks R P (event_of x) (popped x s))"
proof (rule conserve_ok_callbacks)
  from assms show "\<forall>y\<in>set (queue (popped x s)).
      release_event (event_of y) \<longrightarrow> fst y = now (popped x s)"
    by (intro release_due_popped) (simp_all add: conserve_ok_def)
  from assms(2) have m: "x \<in> set (queue s)" by (simp add: smallest_def)
  from assms(1) releases_popped[OF m]
  show "put_queue (popped x s) \<noteq> [] \<longrightarrow>
      num_cashiers P - int (length (users (popped x s))) \<le>
        int (length (releases (popped x s))) + (if release_event (event_of x) then 1 else 0)"
    by (auto simp: conserve_ok_def popped_def)
qed

subsection \<open>Every arrival is accounted for\<close>

lemma placed_frame:
  assumes "placed s i t"
    and "\<And>t p e j b. (t, p, e, Request j b) \<in> set (queue s') \<longleftrightarrow>
           (t, p, e, Request j b) \<in> set (queue s)"
    and "set (starts s) \<subseteq> set (starts s')" "put_queue s' = put_queue s"
  shows "placed s' i t"
  using assms(1,3) unfolding placed_def assms(2,4) by auto

lemma placed_trigger_put:
  assumes "placed s i t"
  shows "placed (trigger_put P s) i t"
proof (cases rule: trigger_put_cases[of P s])
  case idle
  with assms show ?thesis by simp
next
  case (grant h a rest)
  from assms show ?thesis
    unfolding grant(3) placed_def by (auto simp: schedule_def grant(1))
qed

lemma accounted_ok_trigger_put:
  "accounted_ok s \<Longrightarrow> accounted_ok (trigger_put P s)"
proof -
  have "arrivals (trigger_put P s) = arrivals s"
    by (rule trigger_put_cases[of P s]) (simp_all add: schedule_def)
  moreover assume "accounted_ok s"
  ultimately show ?thesis by (auto simp: accounted_ok_def intro: placed_trigger_put)
qed

lemma placed_popped:
  assumes "placed s i t" "event_of x \<noteq> Request i t"
  shows "placed (popped x s) i t"
proof -
  have "(t', p, e, Request i t) \<in> set (queue (popped x s))"
    if "(t', p, e, Request i t) \<in> set (queue s)" for t' p e
  proof -
    from assms(2) have "(t', p, e, Request i t) \<noteq> x" by (auto simp: event_of_def)
    with that show ?thesis by (simp add: popped_def)
  qed
  with assms(1) show ?thesis unfolding placed_def by (simp add: popped_def) blast
qed

lemma accounted_ok_callbacks:
  assumes "\<forall>(i, t, u, w)\<in>set (arrivals s). placed s i t \<or> ev = Request i t"
  shows "accounted_ok (callbacks R P ev s)"
proof (cases ev)
  case (Initialize_customer i)
  let ?s = "s\<lparr>put_queue := put_queue s @ [(i, now s)],
         arrivals := arrivals s @ [(i, now s, length (users s), length (put_queue s))]\<rparr>"
  from assms have "accounted_ok ?s"
    by (auto simp: accounted_ok_def placed_def Initialize_customer)
  then have "accounted_ok (trigger_put P ?s)" by (rule accounted_ok_trigger_put)
  then show ?thesis by (simp add: Initialize_customer service_customer_arrive_eq)
next
  case (Release i)
  from assms have "accounted_ok s" by (auto simp: accounted_ok_def Release)
  then show ?thesis by (simp add: Release accounted_ok_trigger_put)
next
  case (Request i a)
  note f = service_customer_start_frame[where R = R and P = P and i = i and a = a and s = s]
  have "placed (service_customer_start R P i a s) j t"
    if "(j, t, u, w) \<in> set (arrivals s)" for j t u w
  proof -
    from assms that have "placed s j t \<or> (j = i \<and> t = a)" by (auto simp: Request)
    then show ?thesis unfolding placed_def f by auto
  qed
  then show ?thesis by (auto simp: accounted_ok_def Request f)
next
  case (Service_timeout i a st d)
  note f = service_customer_finish_frame[where i = i and a = a and st = st and d = d and s = s]
  from assms show ?thesis
    unfolding accounted_ok_def placed_def Service_timeout callbacks.simps f by auto
next
  case Initialize_generator
  note f = customer_generator_frame[where R = R and P = P and s = "s\<lparr>gen_i := 0\<rparr>"]
  from assms show ?thesis
    unfolding accounted_ok_def placed_def Initialize_generator callbacks.simps f by auto
next
  case Generator_timeout
  note f = customer_generator_frame[where R = R and P = P
      and s = "schedule (Initialize_customer (gen_i s)) URGENT 0 s"]
  from assms show ?thesis
    unfolding accounted_ok_def placed_def Generator_timeout callbacks.simps f
    by (auto simp: schedule_def)
qed (use assms in \<open>auto simp: accounted_ok_def\<close>)

lemma accounted_ok_step:
  assumes "accounted_ok s"
  shows "accounted_ok (callbacks R P (event_of x) (popped x s))"
proof (rule accounted_ok_callbacks, clarify)
  fix i t u w
  assume "(i, t, u, w) \<in> set (arrivals (popped x s))" "event_of x \<noteq> Request i t"
  with assms have "placed s i t" by (auto simp: accounted_ok_def)
  then show "placed (popped x s) i t" using \<open>event_of x \<noteq> Request i t\<close> by (rule placed_popped)
qed

subsection \<open>The service in every state of the loop\<close>

lemma run_ok_start:
  assumes "0 < num_cashiers P" "0 < sim_time P"
  shows "run_ok P (start_env R P)"
proof -
  have "slots_ok P (start_env R P)" "conserve_ok P (start_env R P)"
    "accounted_ok (start_env R P)"
    using assms(1)
    by (simp_all add: slots_ok_def conserve_ok_def accounted_ok_def hold_index_def holders_def
        releases_def event_of_def start_env_def schedule_def init_env_def Let_def)
  with service_ok_start[OF assms(2)] show ?thesis by (simp add: run_ok_def)
qed

lemma run_ok_Continue:
  assumes "run_ok P s" "step R P s = Continue s'"
  shows "run_ok P s'"
proof -
  from assms(2) obtain x where x: "smallest x s" "event_of x \<noteq> Until"
    "s' = callbacks R P (event_of x) (popped x s)"
    by (rule step_Continue)
  from assms(1) have so: "service_ok P s" and sl: "slots_ok P s" and co: "conserve_ok P s"
    and ac: "accounted_ok s"
    by (simp_all add: run_ok_def)
  from so have b: "base_ok P s"
    by (simp add: service_ok_def history_ok_def engine_ok_def)
  from x(1) have m: "x \<in> set (queue s)" by (simp add: smallest_def)
  have le: "now s \<le> fst x" using b x(1,2) by (rule pop_time(1))
  have 1: "service_ok P s'" using so assms(2) by (rule service_ok_Continue)
  have 2: "slots_ok P s'" unfolding x(3) using sl m by (rule slots_ok_step)
  have 3: "conserve_ok P s'" unfolding x(3) using co x(1) le by (rule conserve_ok_step)
  have 4: "accounted_ok s'" unfolding x(3) using ac by (rule accounted_ok_step)
  from 1 2 3 4 show ?thesis by (simp add: run_ok_def)
qed

lemma loop_state_run_ok:
  assumes "loop_state R P n = Some s"
  shows "run_ok P s"
proof -
  from assms have c: "0 < num_cashiers P" "0 < sim_time P"
    and r: "run_steps R P n (start_env R P) = Some s"
    by (simp_all add: loop_state_def split: if_splits)
  from r run_ok_start[OF c] show ?thesis
    by (rule run_steps_invariant) (rule run_ok_Continue)
qed

lemma example_loop_state: "loop_state sample_random example_params 20 = Some example_last"
  by code_simp

lemma users_held:
  assumes "slots_ok P s" "linked_ok s" "i \<in> set (users s)"
  shows "(\<exists>t p e a. (t, p, e, Request i a) \<in> set (queue s)) \<or>
         (\<exists>a st. (i, a, st) \<in> set (starts s))"
proof -
  from assms(1,3) have "i \<in># hold_index s" by (simp add: slots_ok_def flip: set_mset_mset)
  then obtain x where x: "x \<in> set (queue s)" "holding (event_of x)" "customer_of (event_of x) = i"
    by (auto simp: hold_index_def holders_def)
  obtain t p e ev where xe: "x = (t, p, e, ev)" by (cases x)
  show ?thesis
  proof (cases ev)
    case (Request j a)
    with x xe show ?thesis by (auto simp: event_of_def)
  next
    case (Service_timeout j a st d)
    with x xe have "(t, p, e, Service_timeout i a st d) \<in> set (queue s)"
      by (simp add: event_of_def)
    with assms(2) have "(i, a, st) \<in> set (starts s)" unfolding linked_ok_def by blast
    then show ?thesis by blast
  qed (use x xe in \<open>simp_all add: event_of_def\<close>)
qed

text \<open>
  C8 (first come, first served). In every state \<open>s\<close> that the loop of \<^verbatim>\<open>env.run\<close>
  goes through:
  \<^item> Capacity. At most \<open>num_cashiers\<close> customers hold a slot, and the customers that
    hold one are those whose request is granted or whose service is under way.
  \<^item> No idle slot while a customer waits. A release event in the heap is due at
    the current time, and when a customer waits and no release event is in the heap,
    all \<open>num_cashiers\<close> slots are held.
  \<^item> One queue, in arrival order. The put queue is in the order of the indices; a
    customer in it holds no slot, and on arrival it did not find a slot free for it
    (fewer than \<open>num_cashiers\<close> slots held and nobody waiting).
  \<^item> Every customer that arrived is waiting in the put queue, or its request is
    granted and due at the current time, or its service has started.
  \<^item> A customer that found a slot free for it on arrival started at its arrival
    time; and when a customer has started, every customer that arrived before it has
    started too, and no later. So a released slot goes to the waiting customer that
    arrived first, also when releases and arrivals fall on the same instant.
  \<^item> \<open>starts\<close> is in the order of the indices and of the start times; its
    customers are customers of \<open>arrivals\<close>, and every record is the record of a
    customer of \<open>starts\<close>.
\<close>

theorem first_come_first_served:
  assumes "loop_state R P n = Some s"
  shows "int (length (users s)) \<le> num_cashiers P \<and>
         mset (users s) = hold_index s \<and>
         (\<forall>x\<in>set (releases s). fst x = now s) \<and>
         (put_queue s \<noteq> [] \<longrightarrow> releases s = [] \<longrightarrow> int (length (users s)) = num_cashiers P) \<and>
         sorted_wrt (<) (map fst (put_queue s)) \<and>
         (\<forall>(j, b)\<in>set (put_queue s). j \<notin> set (users s) \<and>
            (\<exists>u w. (j, b, u, w) \<in> set (arrivals s) \<and> \<not> (int u < num_cashiers P \<and> w = 0))) \<and>
         (\<forall>(i, t, u, w)\<in>set (arrivals s).
            (i, t) \<in> set (put_queue s) \<or>
            (\<exists>p e. (now s, p, e, Request i t) \<in> set (queue s)) \<or>
            (\<exists>st. (i, t, st) \<in> set (starts s))) \<and>
         (\<forall>(i, t, u, w)\<in>set (arrivals s). \<forall>(j, a, st)\<in>set (starts s).
            (j = i \<longrightarrow> a = t \<and> (int u < num_cashiers P \<and> w = 0 \<longrightarrow> st = t)) \<and>
            (i < j \<longrightarrow> (\<exists>st0. (i, t, st0) \<in> set (starts s) \<and> st0 \<le> st))) \<and>
         sorted_wrt (\<lambda>x y. fst x < fst y \<and> snd (snd x) \<le> snd (snd y)) (starts s) \<and>
         (\<forall>(j, a, st)\<in>set (starts s). \<exists>u w. (j, a, u, w) \<in> set (arrivals s)) \<and>
         (\<forall>r\<in>set (records s). \<exists>i. customer_id r = customer_label i \<and>
            (i, arrival_time r, start_service r) \<in> set (starts s))"
proof -
  from assms have ok: "run_ok P s" by (rule loop_state_run_ok)
  then have sv: "service_ok P s" and sl: "slots_ok P s" and co: "conserve_ok P s"
    and ac: "accounted_ok s"
    by (simp_all add: run_ok_def)
  from sv have ar: "arrivals_ok s" and so: "starts_ok s" and ro: "requests_ok s"
    and wo: "waiting_ok s" and im: "immediate_ok P s" and li: "linked_ok s"
    by (simp_all add: service_ok_def history_ok_def fifo_ok_def)
  from ar have sa: "sorted_wrt (\<lambda>x y. fst x < fst y \<and> fst (snd x) \<le> fst (snd y)) (arrivals s)"
    by (simp add: arrivals_ok_def)
  from so have ss: "sorted_wrt (\<lambda>x y. fst x < fst y \<and> snd (snd x) \<le> snd (snd y)) (starts s)"
    and known: "\<And>j a st. (j, a, st) \<in> set (starts s) \<Longrightarrow> \<exists>u w. (j, a, u, w) \<in> set (arrivals s)"
    and before_granted: "\<And>j a st t p e i b. (j, a, st) \<in> set (starts s) \<Longrightarrow>
        (t, p, e, Request i b) \<in> set (queue s) \<Longrightarrow> j < i"
    and before_waiting: "\<And>j a st i b. (j, a, st) \<in> set (starts s) \<Longrightarrow>
        (i, b) \<in> set (put_queue s) \<Longrightarrow> j < i"
    unfolding starts_ok_def by fast+
  from ro have due: "\<And>t p e i a. (t, p, e, Request i a) \<in> set (queue s) \<Longrightarrow> t = now s"
    and granted_waiting: "\<And>t p e i a j b. (t, p, e, Request i a) \<in> set (queue s) \<Longrightarrow>
        (j, b) \<in> set (put_queue s) \<Longrightarrow> i < j"
    unfolding requests_ok_def by fast+
  from sl have c1: "int (length (users s)) \<le> num_cashiers P"
    and c2: "mset (users s) = hold_index s"
    by (simp_all add: slots_ok_def)
  from co have c3: "\<forall>x\<in>set (releases s). fst x = now s"
    by (simp add: conserve_ok_def releases_def)
  from co c1 have c4: "put_queue s \<noteq> [] \<longrightarrow> releases s = [] \<longrightarrow>
      int (length (users s)) = num_cashiers P"
    by (auto simp: conserve_ok_def)
  from wo have c5: "sorted_wrt (<) (map fst (put_queue s))"
    and logged: "\<And>j b. (j, b) \<in> set (put_queue s) \<Longrightarrow> \<exists>u w. (j, b, u, w) \<in> set (arrivals s)"
    unfolding waiting_ok_def by fast+
  have c6: "j \<notin> set (users s) \<and>
      (\<exists>u w. (j, b, u, w) \<in> set (arrivals s) \<and> \<not> (int u < num_cashiers P \<and> w = 0))"
    if w: "(j, b) \<in> set (put_queue s)" for j b
  proof
    show "j \<notin> set (users s)"
    proof
      assume "j \<in> set (users s)"
      from users_held[OF sl li this] show False
      proof
        assume "\<exists>t p e a. (t, p, e, Request j a) \<in> set (queue s)"
        then obtain t p e a where "(t, p, e, Request j a) \<in> set (queue s)" by blast
        from granted_waiting[OF this w] show False by simp
      next
        assume "\<exists>a st. (j, a, st) \<in> set (starts s)"
        then obtain a st where "(j, a, st) \<in> set (starts s)" by blast
        from before_waiting[OF this w] show False by simp
      qed
    qed
    from logged[OF w] obtain u w' where m: "(j, b, u, w') \<in> set (arrivals s)" by blast
    have "\<not> slot_free P u w'"
    proof
      assume "slot_free P u w'"
      with im m have "\<forall>(k, a)\<in>set (put_queue s). k \<noteq> j" unfolding immediate_ok_def by fast
      with w show False by fast
    qed
    with m show "\<exists>u w. (j, b, u, w) \<in> set (arrivals s) \<and> \<not> (int u < num_cashiers P \<and> w = 0)"
      unfolding slot_free_def by blast
  qed
  have c7: "(i, t) \<in> set (put_queue s) \<or>
      (\<exists>p e. (now s, p, e, Request i t) \<in> set (queue s)) \<or>
      (\<exists>st. (i, t, st) \<in> set (starts s))"
    if "(i, t, u, w) \<in> set (arrivals s)" for i t u w
  proof -
    from ac that have "placed s i t" unfolding accounted_ok_def by fast
    then show ?thesis unfolding placed_def using due by blast
  qed
  have c8: "(j = i \<longrightarrow> a = t \<and> (int u < num_cashiers P \<and> w = 0 \<longrightarrow> st = t)) \<and>
      (i < j \<longrightarrow> (\<exists>st0. (i, t, st0) \<in> set (starts s) \<and> st0 \<le> st))"
    if m: "(i, t, u, w) \<in> set (arrivals s)" and n: "(j, a, st) \<in> set (starts s)"
    for i t u w j a st
  proof (intro conjI impI)
    assume e: "j = i"
    from known[OF n] e obtain u' w' where "(i, a, u', w') \<in> set (arrivals s)" by blast
    from sorted_wrt_same_index[OF sa this m] show "a = t" by simp
  next
    assume e: "j = i" and "int u < num_cashiers P \<and> w = 0"
    then have "slot_free P u w" by (simp add: slot_free_def)
    with im m have "\<forall>(k, a, st)\<in>set (starts s). k = i \<longrightarrow> st = t"
      unfolding immediate_ok_def by fast
    with n e show "st = t" by fast
  next
    assume l: "i < j"
    from c7[OF m] show "\<exists>st0. (i, t, st0) \<in> set (starts s) \<and> st0 \<le> st"
    proof (elim disjE exE)
      assume "(i, t) \<in> set (put_queue s)"
      from before_waiting[OF n this] l show ?thesis by simp
    next
      fix p e assume "(now s, p, e, Request i t) \<in> set (queue s)"
      from before_granted[OF n this] l show ?thesis by simp
    next
      fix st0 assume s0: "(i, t, st0) \<in> set (starts s)"
      from sorted_wrt_pair[OF ss s0 n] l have "st0 \<le> st" by simp
      with s0 show ?thesis by blast
    qed
  qed
  from li have c11: "\<forall>r\<in>set (records s). \<exists>i. customer_id r = customer_label i \<and>
      (i, arrival_time r, start_service r) \<in> set (starts s)"
    by (simp add: linked_ok_def)
  from c6 have c6': "\<forall>(j, b)\<in>set (put_queue s). j \<notin> set (users s) \<and>
      (\<exists>u w. (j, b, u, w) \<in> set (arrivals s) \<and> \<not> (int u < num_cashiers P \<and> w = 0))"
    by fast
  from c7 have c7': "\<forall>(i, t, u, w)\<in>set (arrivals s).
      (i, t) \<in> set (put_queue s) \<or>
      (\<exists>p e. (now s, p, e, Request i t) \<in> set (queue s)) \<or>
      (\<exists>st. (i, t, st) \<in> set (starts s))"
    by fast
  from c8 have c8': "\<forall>(i, t, u, w)\<in>set (arrivals s). \<forall>(j, a, st)\<in>set (starts s).
      (j = i \<longrightarrow> a = t \<and> (int u < num_cashiers P \<and> w = 0 \<longrightarrow> st = t)) \<and>
      (i < j \<longrightarrow> (\<exists>st0. (i, t, st0) \<in> set (starts s) \<and> st0 \<le> st))"
    by fast
  from known have c10: "\<forall>(j, a, st)\<in>set (starts s). \<exists>u w. (j, a, u, w) \<in> set (arrivals s)"
    by fast
  from c1 c2 c3 c4 c5 c6' c7' c8' ss c10 c11 show ?thesis by (intro conjI)
qed

theorem first_come_first_served_witness:
  "loop_state sample_random example_params 20 = Some example_last \<and>
   int (length (users example_last)) \<le> num_cashiers example_params \<and>
   mset (users example_last) = hold_index example_last \<and>
   put_queue example_last \<noteq> [] \<and> releases example_last = [] \<and>
   int (length (users example_last)) = num_cashiers example_params \<and>
   (4, 8) \<in> set (put_queue example_last) \<and> 4 \<notin> set (users example_last) \<and>
   (4, 8, 1, 1) \<in> set (arrivals example_last) \<and> num_cashiers example_params \<le> int 1 \<and>
   (1, 2, 0, 0) \<in> set (arrivals example_last) \<and> (1, 2, 2) \<in> set (starts example_last) \<and>
   int 0 < num_cashiers example_params \<and>
   (2, 4, 1, 0) \<in> set (arrivals example_last) \<and> (2, 4, 6) \<in> set (starts example_last) \<and>
   (3, 6, 10) \<in> set (starts example_last) \<and> (2 :: nat) < 3 \<and> (6 :: int) \<le> 10 \<and>
   sorted_wrt (\<lambda>x y. fst x < fst y \<and> snd (snd x) \<le> snd (snd y)) (starts example_last) \<and>
   customer_id customer_2 = customer_label 2 \<and>
   (2, arrival_time customer_2, start_service customer_2) \<in> set (starts example_last)"
proof -
  from first_come_first_served[OF example_loop_state]
  have "int (length (users example_last)) \<le> num_cashiers example_params"
    by (rule conjunct1)
  moreover have "customer_label 2 = ''Customer 2''" by code_simp
  ultimately show ?thesis
    using example_loop_state
    by (simp add: example_last_def example_params_def customer_2_def hold_index_def
        holders_def releases_def event_of_def)
qed

end
